theory Spec2Isabelle
  imports Main "HOL-Library.Word"
begin

unbundle bit_operations_syntax

section \<open>Data model of the hash table (bees-hash.cc)\<close>

text \<open>
  Fingerprints and addresses are \<open>uint64_t\<close>.  A cell is the pair of the two, built by
  the constructor \<open>Cell(hash, addr)\<close>.

  Modelled from the spec: the struct \<open>Cell\<close> and its comparison operators are declared
  in bees.h, which is not among the sources; the spec says that equality of cells is
  field-wise.
\<close>

type_synonym HashType = "64 word"
type_synonym AddrType = "64 word"

datatype Cell = Cell (e_hash: HashType) (e_addr: AddrType)

text \<open>The exceptions the code throws: \<open>THROW_CHECK\<close> with \<open>runtime_error\<close> or
  \<open>out_of_range\<close>, and the error of \<open>pread_or_die\<close>.\<close>

datatype error = runtime_error | out_of_range | io_error

text \<open>The counters bumped with \<open>BEESCOUNT\<close>.\<close>

datatype counter =
    hash_lookup | hash_toxic | hash_insert | hash_evict | hash_bump | hash_already
  | hash_front | hash_erase | hash_extent_in | hash_extent_in_twice | hash_extent_out
  | bug_hash_magic_addr | bug_hash_duplicate_cell

text \<open>
  The table.  The mapped region is kept in its bucket view: \<open>m_bucket_ptr\<close> is the array
  of buckets, each bucket the array \<open>p_cells\<close> of its cells.  Bucket \<open>b\<close> lies in extent
  \<open>b div c_buckets_per_extent\<close>.  The backing file is read one extent at a time:
  \<open>m_fd e\<close> is what \<open>pread\<close> of extent \<open>e\<close> delivers, \<open>None\<close> when the read fails.
  The constants \<open>c_cells_per_bucket\<close>, \<open>c_buckets_per_extent\<close> and the toxic bit of
  an address are declared in bees.h, which is not among the sources; they are fields of
  the record that no operation changes.
\<close>

record BeesHashTable =
  c_cells_per_bucket :: nat
  c_buckets_per_extent :: nat
  c_toxic_mask :: AddrType
  m_buckets :: nat
  m_extents :: nat
  m_bucket_ptr :: "Cell list list"
  m_fd :: "nat \<Rightarrow> Cell list list option"
  m_buckets_dirty :: "nat set"
  m_buckets_missing :: "nat set"
  m_toxic_hashes :: "HashType set"
  stats :: "counter \<Rightarrow> nat"

text \<open>A call either throws, leaving the table as it was at the throw, or returns.\<close>

type_synonym 'a result = "(error \<times> BeesHashTable) + ('a \<times> BeesHashTable)"

definition count :: "counter \<Rightarrow> (counter \<Rightarrow> nat) \<Rightarrow> (counter \<Rightarrow> nat)" where
  "count c st = st(c := Suc (st c))"

definition BEESCOUNT :: "counter \<Rightarrow> BeesHashTable \<Rightarrow> BeesHashTable" where
  "BEESCOUNT c t = t\<lparr>stats := count c (stats t)\<rparr>"

section \<open>Library algorithms and the copy loops\<close>

text \<open>\<open>std::find(first, last, v)\<close> on the range \<open>xs\<close>: the offset of the first element
  equal to \<open>v\<close>, or the length of the range (the pointer \<open>last\<close>).\<close>

fun std_find :: "Cell list \<Rightarrow> Cell \<Rightarrow> nat" where
  "std_find [] v = 0"
| "std_find (x # xs) v = (if x = v then 0 else Suc (std_find xs v))"

text \<open>The loop \<open>while (dp > first) { *dp-- = *sp--; }\<close>, offsets taken from the start
  of the bucket.\<close>

fun copy_loop :: "nat \<Rightarrow> nat \<Rightarrow> nat \<Rightarrow> Cell list \<Rightarrow> Cell list" where
  "copy_loop first sp dp xs =
     (if first < dp then copy_loop first (sp - 1) (dp - 1) (xs[dp := xs ! sp]) else xs)"

text \<open>\<open>std::move_backward(first, last, d_last)\<close>:
  \<open>while (first != last) *(--d_last) = *(--last);\<close>\<close>

fun move_backward :: "nat \<Rightarrow> nat \<Rightarrow> nat \<Rightarrow> Cell list \<Rightarrow> Cell list" where
  "move_backward first lst d_last xs =
     (if first < lst
      then move_backward first (lst - 1) (d_last - 1) (xs[d_last - 1 := xs ! (lst - 1)])
      else xs)"

section \<open>Addressing\<close>

text \<open>\<open>get_cell_range\<close>: the bucket of a hash.  The range \<open>[bp, ep)\<close> is returned as the
  index of the bucket; \<open>ep <= m_cell_ptr_end\<close> says that the bucket lies in the region.
  The region is mapped by the constructor, so the check \<open>m_bucket_ptr != nullptr\<close> and
  the check \<open>bp >= m_cell_ptr\<close> cannot fail and have no branch here.\<close>

definition get_cell_range :: "BeesHashTable \<Rightarrow> HashType \<Rightarrow> nat result" where
  "get_cell_range t hash =
     (if \<not> 0 < m_buckets t then Inl (runtime_error, t)
      else let pp = unat hash mod m_buckets t in
        if \<not> pp < length (m_bucket_ptr t) then Inl (out_of_range, t)
        else Inr (pp, t))"

text \<open>\<open>get_extent_range\<close>: the extent of a hash, returned as the index of the extent.\<close>

definition get_extent_range :: "BeesHashTable \<Rightarrow> HashType \<Rightarrow> nat result" where
  "get_extent_range t hash =
     (if \<not> 0 < m_buckets t then Inl (runtime_error, t)
      else let iop = (unat hash mod m_buckets t) div c_buckets_per_extent t in
        if \<not> (iop + 1) * c_buckets_per_extent t \<le> length (m_bucket_ptr t)
        then Inl (out_of_range, t)
        else Inr (iop, t))"

definition set_extent_dirty :: "BeesHashTable \<Rightarrow> HashType \<Rightarrow> unit result" where
  "set_extent_dirty t hash =
     (if \<not> 0 < m_buckets t then Inl (runtime_error, t)
      else case get_extent_range t hash of
        Inl e \<Rightarrow> Inl e
      | Inr (extent_number, _) \<Rightarrow>
          if \<not> extent_number < m_extents t then Inl (runtime_error, t)
          else Inr ((), t\<lparr>m_buckets_dirty := insert extent_number (m_buckets_dirty t)\<rparr>))"

text \<open>The buckets of extent \<open>e\<close> are replaced by what was read from the file.\<close>

definition write_extent :: "nat \<Rightarrow> nat \<Rightarrow> Cell list list \<Rightarrow> Cell list list \<Rightarrow> Cell list list" where
  "write_extent k e bs mem = take (e * k) mem @ bs @ drop (e * k + k) mem"

text \<open>\<open>fetch_missing_extent\<close>.  Run without interleaving, the second look at
  \<open>m_buckets_missing\<close> sees what the first saw.  A read that fails, or that delivers
  less than an extent, throws and leaves the region as it was.\<close>

definition fetch_missing_extent :: "BeesHashTable \<Rightarrow> HashType \<Rightarrow> unit result" where
  "fetch_missing_extent t hash =
     (if \<not> 0 < m_buckets t then Inl (runtime_error, t)
      else case get_extent_range t hash of
        Inl e \<Rightarrow> Inl e
      | Inr (extent_number, _) \<Rightarrow>
          if \<not> extent_number < m_extents t then Inl (runtime_error, t)
          else if extent_number \<notin> m_buckets_missing t then Inr ((), t)
          else case m_fd t extent_number of
            None \<Rightarrow> Inl (io_error, t)
          | Some bs \<Rightarrow>
              if length bs \<noteq> c_buckets_per_extent t then Inl (io_error, t)
              else Inr ((), (BEESCOUNT hash_extent_in t)
                     \<lparr>m_bucket_ptr := write_extent (c_buckets_per_extent t) extent_number bs
                                        (m_bucket_ptr t),
                      m_buckets_missing := m_buckets_missing t - {extent_number}\<rparr>))"

section \<open>Lookup and erase\<close>

definition is_toxic_hash :: "BeesHashTable \<Rightarrow> HashType \<Rightarrow> bool" where
  "is_toxic_hash t hash = (hash \<in> m_toxic_hashes t)"

text \<open>Modelled from the spec: \<open>BeesAddress::set_toxic\<close> is declared in bees.h, which is
  not among the sources; the spec says that an address carries a toxic flag among its
  flag bits, so setting it is a bitwise or with the flag's mask.\<close>

definition set_toxic :: "AddrType \<Rightarrow> AddrType \<Rightarrow> AddrType" where
  "set_toxic msk a = a OR msk"

definition find_cell :: "BeesHashTable \<Rightarrow> HashType \<Rightarrow> (Cell list) result" where
  "find_cell t hash =
     (if is_toxic_hash t hash then
        let t1 = BEESCOUNT hash_toxic t;
            toxic_addr = set_toxic (c_toxic_mask t) 0x1000;
            toxic_cell = Cell hash toxic_addr
        in Inr ([] @ [toxic_cell], t1)
      else case fetch_missing_extent t hash of
        Inl e \<Rightarrow> Inl e
      | Inr (_, t1) \<Rightarrow>
          (case get_cell_range t1 hash of
             Inl e \<Rightarrow> Inl e
           | Inr (er, _) \<Rightarrow>
               Inr (filter (\<lambda>ip. e_hash ip = hash \<and> 0x1000 \<le> e_addr ip) (m_bucket_ptr t1 ! er),
                    BEESCOUNT hash_lookup t1)))"

definition erase_hash_addr :: "BeesHashTable \<Rightarrow> HashType \<Rightarrow> AddrType \<Rightarrow> unit result" where
  "erase_hash_addr t hash addr =
     (case fetch_missing_extent t hash of
        Inl e \<Rightarrow> Inl e
      | Inr (_, t1) \<Rightarrow>
          (case get_cell_range t1 hash of
             Inl e \<Rightarrow> Inl e
           | Inr (er, _) \<Rightarrow>
               let xs = m_bucket_ptr t1 ! er;
                   mv = Cell hash addr;
                   ip = std_find xs mv;
                   found = (ip < length xs)
               in if found then
                    (case set_extent_dirty
                            (t1\<lparr>m_bucket_ptr := (m_bucket_ptr t1)[er := xs[ip := Cell 0 0]]\<rparr>) hash of
                       Inl e \<Rightarrow> Inl e
                     | Inr (_, t2) \<Rightarrow> Inr ((), BEESCOUNT hash_erase t2))
                  else Inr ((), t1)))"

section \<open>Insertion\<close>

text \<open>\<open>push_front_hash_addr\<close>.  When the bucket has one cell and \<open>ip\<close> is its end, the
  pointer \<open>sp\<close> steps before the bucket and is never read; the offset \<open>ip - 2\<close> is then 0.\<close>

definition push_front_hash_addr :: "BeesHashTable \<Rightarrow> HashType \<Rightarrow> AddrType \<Rightarrow> bool result" where
  "push_front_hash_addr t hash addr =
     (case fetch_missing_extent t hash of
        Inl e \<Rightarrow> Inl e
      | Inr (_, t1) \<Rightarrow>
          (case get_cell_range t1 hash of
             Inl e \<Rightarrow> Inl e
           | Inr (er, _) \<Rightarrow>
               let xs = m_bucket_ptr t1 ! er;
                   mv = Cell hash addr;
                   ip0 = std_find xs mv;
                   found = (ip0 < length xs);
                   ip = (if \<not> found then std_find xs (Cell 0 0) else ip0);
                   xs1 = (if 0 < ip
                          then (if ip = length xs then copy_loop 0 (ip - 2) (ip - 1) xs
                                else copy_loop 0 (ip - 1) ip xs)
                          else xs);
                   t2 = (if 0 < ip \<and> ip = length xs then BEESCOUNT hash_evict t1 else t1)
               in if xs1 ! 0 \<noteq> mv then
                    (case set_extent_dirty
                            (t2\<lparr>m_bucket_ptr := (m_bucket_ptr t2)[er := xs1[0 := mv]]\<rparr>) hash of
                       Inl e \<Rightarrow> Inl e
                     | Inr (_, t3) \<Rightarrow> Inr (found, BEESCOUNT hash_front t3))
                  else Inr (found, t2\<lparr>m_bucket_ptr := (m_bucket_ptr t2)[er := xs1]\<rparr>)))"

text \<open>The scan \<open>for (ip = er.first + pos; ip < er.second; ++ip)\<close> for an empty cell.\<close>

function scan_up :: "Cell list \<Rightarrow> nat \<Rightarrow> nat option" where
  "scan_up xs ip =
     (if ip < length xs
      then (if xs ! ip = Cell 0 0 then Some ip else scan_up xs (ip + 1))
      else None)"
  by pat_completeness auto
termination
  by (relation "measure (\<lambda>(xs, ip). length xs - ip)") auto

text \<open>The scan \<open>for (ip = er.first + pos - 1; ip >= er.first; --ip)\<close>; the argument is
  the number of cells still to visit, one more than the offset \<open>ip\<close>.\<close>

fun scan_down :: "Cell list \<Rightarrow> nat \<Rightarrow> nat option" where
  "scan_down xs 0 = None"
| "scan_down xs (Suc ip) = (if xs ! ip = Cell 0 0 then Some ip else scan_down xs ip)"

text \<open>The label \<open>ret_dirty\<close>: the cells written so far are in the bucket.\<close>

definition ret_dirty :: "BeesHashTable \<Rightarrow> nat \<Rightarrow> Cell list \<Rightarrow> HashType \<Rightarrow> bool \<Rightarrow> bool result" where
  "ret_dirty t er xs hash found =
     (case set_extent_dirty
             (BEESCOUNT hash_insert (t\<lparr>m_bucket_ptr := (m_bucket_ptr t)[er := xs]\<rparr>)) hash of
        Inl e \<Rightarrow> Inl e
      | Inr (_, t') \<Rightarrow> Inr (found, t'))"

text \<open>\<open>push_random_hash_addr\<close>; \<open>pos\<close> is the value drawn from the distribution on
  \<open>[0, c_cells_per_bucket - 1]\<close>.\<close>

definition push_random_hash_addr ::
  "BeesHashTable \<Rightarrow> nat \<Rightarrow> HashType \<Rightarrow> AddrType \<Rightarrow> bool result" where
  "push_random_hash_addr t pos hash addr =
     (case fetch_missing_extent t hash of
        Inl e \<Rightarrow> Inl e
      | Inr (_, t1) \<Rightarrow>
          (case get_cell_range t1 hash of
             Inl e \<Rightarrow> Inl e
           | Inr (er, _) \<Rightarrow>
               let xs = m_bucket_ptr t1 ! er;
                   mv = Cell hash addr;
                   ip = std_find xs mv;
                   found = (ip < length xs)
               in if found then
                    (if pos < ip
                     then ret_dirty (BEESCOUNT hash_bump t1) er
                            ((copy_loop pos (ip - 1) ip xs)[pos := mv]) hash found
                     else Inr (found, BEESCOUNT hash_already t1))
                  else
                    (case scan_up xs pos of
                       Some ip \<Rightarrow> ret_dirty t1 er (xs[ip := mv]) hash found
                     | None \<Rightarrow>
                         (case (if 0 < pos then scan_down xs pos else None) of
                            Some ip \<Rightarrow> ret_dirty t1 er (xs[ip := mv]) hash found
                          | None \<Rightarrow>
                              ret_dirty (BEESCOUNT hash_evict t1) er
                                ((move_backward pos (length xs - 1) (length xs) xs)[pos := mv])
                                hash found))))"

section \<open>Verification and the prefetch pass\<close>

definition VERIFY_CLEARS_BUGS :: bool where
  "VERIFY_CLEARS_BUGS = False"

text \<open>The loop of \<open>verify_cell_range\<close> over the cells of a range, with the set
  \<open>seen_it\<close>, the counters and \<open>bugs_found\<close> carried along.  \<open>seen_it\<close> is a
  \<open>std::set\<close> of cells; with the field-wise equality of cells, \<open>insert\<close> reports a cell
  as present exactly when an equal cell was inserted before.\<close>

fun verify_loop ::
  "bool \<Rightarrow> Cell list \<Rightarrow> Cell set \<Rightarrow> (counter \<Rightarrow> nat) \<Rightarrow> bool
     \<Rightarrow> Cell list \<times> (counter \<Rightarrow> nat) \<times> bool" where
  "verify_loop clear_bugs [] seen_it st bugs_found = ([], st, bugs_found)"
| "verify_loop clear_bugs (cell # cells) seen_it st bugs_found =
     (let magic = (e_addr cell \<noteq> 0 \<and> e_addr cell < 0x1000);
          st1 = (if magic then count bug_hash_magic_addr st else st);
          cell1 = (if magic \<and> clear_bugs then Cell 0 0 else cell);
          dup = (e_addr cell1 \<noteq> 0 \<and> cell1 \<in> seen_it);
          seen1 = (if e_addr cell1 \<noteq> 0 then insert cell1 seen_it else seen_it);
          st2 = (if dup then count bug_hash_duplicate_cell st1 else st1);
          cell2 = (if dup \<and> clear_bugs then Cell 0 0 else cell1)
      in case verify_loop clear_bugs cells seen1 st2 (bugs_found \<or> magic \<or> dup) of
           (cells', st', b') \<Rightarrow> (cell2 # cells', st', b'))"

definition verify_cell_range ::
  "Cell list \<Rightarrow> bool \<Rightarrow> (counter \<Rightarrow> nat) \<Rightarrow> Cell list \<times> (counter \<Rightarrow> nat) \<times> bool" where
  "verify_cell_range cells clear_bugs st = verify_loop clear_bugs cells {} st False"

text \<open>The loop over the buckets of one extent in \<open>prefetch_loop\<close>.  The counts for the
  occupancy histogram are local to the loop and change nothing in the table; they are
  left out.\<close>

fun analyze_buckets :: "BeesHashTable \<Rightarrow> nat list \<Rightarrow> bool \<Rightarrow> BeesHashTable \<times> bool" where
  "analyze_buckets t [] duplicate_bugs_found = (t, duplicate_bugs_found)"
| "analyze_buckets t (bucket # buckets) duplicate_bugs_found =
     (case verify_cell_range (m_bucket_ptr t ! bucket) VERIFY_CLEARS_BUGS (stats t) of
        (cells', st', bugs) \<Rightarrow>
          analyze_buckets
            (t\<lparr>m_bucket_ptr := (m_bucket_ptr t)[bucket := cells'], stats := st'\<rparr>)
            buckets (duplicate_bugs_found \<or> bugs))"

text \<open>The body of the loop over the extents, inside \<open>catch_all\<close>: an exception ends the
  body and the table stays as it was at the throw.\<close>

definition prefetch_extent :: "BeesHashTable \<Rightarrow> nat \<Rightarrow> BeesHashTable" where
  "prefetch_extent t ext =
     (case fetch_missing_extent t (of_nat (ext * c_buckets_per_extent t)) of
        Inl (e, t') \<Rightarrow> t'
      | Inr (_, t1) \<Rightarrow>
          (case analyze_buckets t1
                  [ext * c_buckets_per_extent t1 ..< (ext + 1) * c_buckets_per_extent t1] False of
             (t2, duplicate_bugs_found) \<Rightarrow>
               if duplicate_bugs_found then
                 (case set_extent_dirty t2 (of_nat ext) of
                    Inl (e, t') \<Rightarrow> t'
                  | Inr (_, t3) \<Rightarrow> t3)
               else t2))"

text \<open>One pass \<open>for (ext = 0; ext < m_extents; ++ext)\<close> of \<open>prefetch_loop\<close>.\<close>

definition prefetch_pass :: "BeesHashTable \<Rightarrow> BeesHashTable" where
  "prefetch_pass t = foldl prefetch_extent t [0 ..< m_extents t]"

declare copy_loop.simps [simp del] move_backward.simps [simp del] scan_up.simps [simp del]

section \<open>Notions of the specification\<close>

text \<open>The bucket of a fingerprint is \<open>fingerprint mod m_buckets\<close>, its extent the
  one that holds this bucket.\<close>

definition bucket_index :: "BeesHashTable \<Rightarrow> HashType \<Rightarrow> nat" where
  "bucket_index t hash = unat hash mod m_buckets t"

definition extent_index :: "BeesHashTable \<Rightarrow> HashType \<Rightarrow> nat" where
  "extent_index t hash = bucket_index t hash div c_buckets_per_extent t"

text \<open>The index of the first cell equal to \<open>v\<close>; the length of the bucket when there
  is none.\<close>

definition first_index :: "Cell list \<Rightarrow> Cell \<Rightarrow> nat" where
  "first_index xs v = length (takeWhile (\<lambda>c. c \<noteq> v) xs)"

text \<open>Rotating the range \<open>[lo, hi]\<close> of a bucket to the right by one: the cell at \<open>hi\<close>
  comes to \<open>lo\<close>, the cells from \<open>lo\<close> to \<open>hi - 1\<close> move up by one, the others stay.\<close>

definition rotate_right_range :: "nat \<Rightarrow> nat \<Rightarrow> Cell list \<Rightarrow> Cell list" where
  "rotate_right_range lo hi xs =
     take lo xs @ [xs ! hi] @ take (hi - lo) (drop lo xs) @ drop (Suc hi) xs"

text \<open>The source of the shift of \<open>push_front\<close>: the matching cell if there is one, else
  the first empty cell, else the last cell of the bucket.\<close>

definition push_front_source :: "Cell list \<Rightarrow> Cell \<Rightarrow> nat" where
  "push_front_source xs mv =
     (if mv \<in> set xs then first_index xs mv
      else if Cell 0 0 \<in> set xs then first_index xs (Cell 0 0)
      else length xs - 1)"

text \<open>A table of one extent with one bucket, loaded and clean, for the scenarios with
  four cells in the bucket.\<close>

definition scenario_table :: "Cell list \<Rightarrow> BeesHashTable" where
  "scenario_table bucket =
     \<lparr>c_cells_per_bucket = 4, c_buckets_per_extent = 1, c_toxic_mask = 0x200,
      m_buckets = 1, m_extents = 1, m_bucket_ptr = [bucket], m_fd = (\<lambda>e. None),
      m_buckets_dirty = {}, m_buckets_missing = {}, m_toxic_hashes = {},
      stats = (\<lambda>c. 0)\<rparr>"

text \<open>The first empty cell met scanning upward from \<open>p\<close>, and the first met scanning
  downward from \<open>p - 1\<close>.\<close>

definition first_empty_up :: "Cell list \<Rightarrow> nat \<Rightarrow> nat option" where
  "first_empty_up xs p = find (\<lambda>i. xs ! i = Cell 0 0) [p ..< length xs]"

definition first_empty_down :: "Cell list \<Rightarrow> nat \<Rightarrow> nat option" where
  "first_empty_down xs p = find (\<lambda>i. xs ! i = Cell 0 0) (rev [0 ..< p])"

text \<open>What \<open>push_random\<close> does with a new entry: it goes to the first empty cell at
  or after \<open>p\<close>; if there is none, to the first empty cell found downward from \<open>p - 1\<close>;
  if the bucket has no empty cell, the range from \<open>p\<close> to the last cell is rotated
  right by one, which drops the last cell, and the entry is written at \<open>p\<close>.\<close>

definition random_insert_cells :: "nat \<Rightarrow> Cell \<Rightarrow> Cell list \<Rightarrow> Cell list" where
  "random_insert_cells p mv xs =
     (case first_empty_up xs p of
        Some i \<Rightarrow> xs[i := mv]
      | None \<Rightarrow>
          (case first_empty_down xs p of
             Some i \<Rightarrow> xs[i := mv]
           | None \<Rightarrow> (rotate_right_range p (length xs - 1) xs)[p := mv]))"

text \<open>The bucket of the scenarios, and a bucket that holds one cell twice.\<close>

definition abcd :: "Cell list" where
  "abcd = [Cell 0xA 0x100A, Cell 0xB 0x100B, Cell 0xC 0x100C, Cell 0xD 0x100D]"

definition adcd :: "Cell list" where
  "adcd = [Cell 0xA 0x100A, Cell 0xD 0x100D, Cell 0xC 0x100C, Cell 0xD 0x100D]"

text \<open>What a call returns, when it returns; and \<open>find(hash)\<close> performed after
  \<open>erase(hash, addr)\<close>.\<close>

definition returned :: "'a result \<Rightarrow> 'a option" where
  "returned r = (case r of Inl _ \<Rightarrow> None | Inr (v, _) \<Rightarrow> Some v)"

definition erase_then_find :: "BeesHashTable \<Rightarrow> HashType \<Rightarrow> AddrType \<Rightarrow> (Cell list) result" where
  "erase_then_find t hash addr =
     (case erase_hash_addr t hash addr of
        Inl e \<Rightarrow> Inl e
      | Inr (_, t') \<Rightarrow> find_cell t' hash)"

text \<open>A bucket that holds \<open>(0xB, 0x100B)\<close> twice, and the bucket of the erase
  scenario.\<close>

definition twice_b :: "Cell list" where
  "twice_b = [Cell 0xB 0x100B, Cell 0xB 0x100B, Cell 0 0, Cell 0 0]"

definition ab00 :: "Cell list" where
  "ab00 = [Cell 0xA 0x100A, Cell 0xB 0x100B, Cell 0 0, Cell 0 0]"

text \<open>A bucket violates a structural invariant when a cell with a non-zero address has
  an address below \<open>0x1000\<close>, or when two cells with a non-zero address are equal.\<close>

definition bucket_has_violation :: "Cell list \<Rightarrow> bool" where
  "bucket_has_violation xs =
     ((\<exists>c \<in> set xs. e_addr c \<noteq> 0 \<and> e_addr c < 0x1000)
      \<or> \<not> distinct (filter (\<lambda>c. e_addr c \<noteq> 0) xs))"

text \<open>The table as the constructor leaves it, for a file of two extents, with two buckets
  to the extent and two cells to the bucket: the region is zero-filled, every extent is
  missing, none is dirty.\<close>

definition fresh_table :: "(nat \<Rightarrow> Cell list list option) \<Rightarrow> BeesHashTable" where
  "fresh_table file =
     \<lparr>c_cells_per_bucket = 2, c_buckets_per_extent = 2, c_toxic_mask = 0x200,
      m_buckets = 4, m_extents = 2, m_bucket_ptr = replicate 4 [Cell 0 0, Cell 0 0],
      m_fd = file, m_buckets_dirty = {}, m_buckets_missing = {0, 1}, m_toxic_hashes = {},
      stats = (\<lambda>c. 0)\<rparr>"

text \<open>Two extents as the file may hold them, the second with a cell whose address is
  \<open>0x10\<close>; a file whose extents can both be read, and one where the read of extent 0
  fails.\<close>

definition clean_extent :: "Cell list list" where
  "clean_extent = [[Cell 0xA 0x100A, Cell 0 0], [Cell 0 0, Cell 0 0]]"

definition bad_extent :: "Cell list list" where
  "bad_extent = [[Cell 0x5 0x10, Cell 0 0], [Cell 0 0, Cell 0 0]]"

definition readable_file :: "nat \<Rightarrow> Cell list list option" where
  "readable_file e = (if e = 0 then Some clean_extent else if e = 1 then Some bad_extent else None)"

definition failing_file :: "nat \<Rightarrow> Cell list list option" where
  "failing_file e = (if e = 1 then Some bad_extent else None)"

section \<open>Facts about the library algorithms and the copy loops\<close>

lemma std_find_takeWhile: "std_find xs v = length (takeWhile (\<lambda>c. c \<noteq> v) xs)"
  by (induction xs) auto

lemma std_find_le: "std_find xs v \<le> length xs"
  by (induction xs) auto

lemma std_find_less_iff: "std_find xs v < length xs \<longleftrightarrow> v \<in> set xs"
  by (induction xs) auto

lemma std_find_nth: "v \<in> set xs \<Longrightarrow> xs ! std_find xs v = v"
  by (induction xs) auto

lemma std_find_first: "i < std_find xs v \<Longrightarrow> xs ! i \<noteq> v"
proof (induction xs arbitrary: i)
  case Nil
  then show ?case by simp
next
  case (Cons x xs)
  then show ?case by (cases i) (auto split: if_splits)
qed

lemma std_find_notin: "v \<notin> set xs \<Longrightarrow> std_find xs v = length xs"
  by (induction xs) auto

lemma length_copy_loop: "length (copy_loop lo sp dp xs) = length xs"
proof (induction lo sp dp xs rule: copy_loop.induct)
  case (1 first sp dp xs)
  then show ?case by (subst copy_loop.simps) simp
qed

lemma nth_copy_loop:
  "dp < length xs \<Longrightarrow> sp = dp - 1 \<Longrightarrow> k < length xs \<Longrightarrow>
   copy_loop lo sp dp xs ! k = (if lo < k \<and> k \<le> dp then xs ! (k - 1) else xs ! k)"
proof (induction lo sp dp xs rule: copy_loop.induct)
  case (1 first sp dp xs)
  show ?case
  proof (cases "first < dp")
    case True
    have "copy_loop first sp dp xs ! k = copy_loop first (sp - 1) (dp - 1) (xs[dp := xs ! sp]) ! k"
      using True by (subst copy_loop.simps) simp
    also have "\<dots> = (if first < k \<and> k \<le> dp - 1 then (xs[dp := xs ! sp]) ! (k - 1) else (xs[dp := xs ! sp]) ! k)"
      using "1.IH"[OF True] "1.prems" True by simp
    also have "\<dots> = (if first < k \<and> k \<le> dp then xs ! (k - 1) else xs ! k)"
      using "1.prems" True by (auto simp: nth_list_update)
    finally show ?thesis .
  next
    case False
    then show ?thesis by (subst copy_loop.simps) auto
  qed
qed

lemma length_move_backward: "length (move_backward lo l d xs) = length xs"
proof (induction lo l d xs rule: move_backward.induct)
  case (1 first lst d_last xs)
  then show ?case by (subst move_backward.simps) simp
qed

lemma nth_move_backward:
  "l < length xs \<Longrightarrow> d = l + 1 \<Longrightarrow> k < length xs \<Longrightarrow>
   move_backward lo l d xs ! k = (if lo < k \<and> k \<le> l then xs ! (k - 1) else xs ! k)"
proof (induction lo l d xs rule: move_backward.induct)
  case (1 first lst d_last xs)
  show ?case
  proof (cases "first < lst")
    case True
    let ?ys = "xs[d_last - 1 := xs ! (lst - 1)]"
    have "move_backward first lst d_last xs ! k = move_backward first (lst - 1) (d_last - 1) ?ys ! k"
      using True by (subst move_backward.simps) simp
    also have "\<dots> = (if first < k \<and> k \<le> lst - 1 then ?ys ! (k - 1) else ?ys ! k)"
      using "1.IH"[OF True] "1.prems" True by simp
    also have "\<dots> = (if first < k \<and> k \<le> lst then xs ! (k - 1) else xs ! k)"
      using "1.prems" True by (auto simp: nth_list_update)
    finally show ?thesis .
  next
    case False
    then show ?thesis by (subst move_backward.simps) auto
  qed
qed

lemma length_rotate_right_range:
  "lo \<le> hi \<Longrightarrow> hi < length xs \<Longrightarrow> length (rotate_right_range lo hi xs) = length xs"
  by (simp add: rotate_right_range_def)

lemma nth_rotate_right_range:
  "lo \<le> hi \<Longrightarrow> hi < length xs \<Longrightarrow> k < length xs \<Longrightarrow>
   rotate_right_range lo hi xs ! k =
     (if k = lo then xs ! hi else if lo < k \<and> k \<le> hi then xs ! (k - 1) else xs ! k)"
proof -
  assume a: "lo \<le> hi" "hi < length xs" "k < length xs"
  consider "k < lo" | "k = lo" | "lo < k" "k \<le> hi" | "hi < k" by linarith
  then show ?thesis
  proof cases
    case 1
    then show ?thesis using a by (simp add: rotate_right_range_def nth_append)
  next
    case 2
    then show ?thesis using a by (simp add: rotate_right_range_def nth_append)
  next
    case 3
    with a have "k - lo - 1 < hi - lo" "lo + (k - lo - 1) = k - 1" by linarith+
    then show ?thesis using a 3
      by (auto simp add: rotate_right_range_def nth_append nth_Cons' min_def)
  next
    case 4
    with a have "k - lo - 1 - (hi - lo) + Suc hi = k" by linarith
    then show ?thesis using a 4
      by (auto simp add: rotate_right_range_def nth_append nth_Cons' min_def)
  qed
qed

lemma copy_loop_rotate:
  assumes "lo \<le> hi" "hi < length xs"
  shows "(copy_loop lo (hi - 1) hi xs)[lo := v] = (rotate_right_range lo hi xs)[lo := v]"
proof (rule nth_equalityI)
  show "length ((copy_loop lo (hi - 1) hi xs)[lo := v]) = length ((rotate_right_range lo hi xs)[lo := v])"
    using assms by (simp add: length_copy_loop length_rotate_right_range)
next
  fix k assume "k < length ((copy_loop lo (hi - 1) hi xs)[lo := v])"
  then have k: "k < length xs" by (simp add: length_copy_loop)
  show "(copy_loop lo (hi - 1) hi xs)[lo := v] ! k = (rotate_right_range lo hi xs)[lo := v] ! k"
    using assms k
    by (simp add: nth_list_update length_copy_loop length_rotate_right_range
        nth_copy_loop nth_rotate_right_range)
qed

lemma move_backward_rotate:
  assumes "lo \<le> hi" "hi < length xs"
  shows "(move_backward lo hi (hi + 1) xs)[lo := v] = (rotate_right_range lo hi xs)[lo := v]"
proof (rule nth_equalityI)
  show "length ((move_backward lo hi (hi + 1) xs)[lo := v]) = length ((rotate_right_range lo hi xs)[lo := v])"
    using assms by (simp add: length_move_backward length_rotate_right_range)
next
  fix k assume "k < length ((move_backward lo hi (hi + 1) xs)[lo := v])"
  then have k: "k < length xs" by (simp add: length_move_backward)
  show "(move_backward lo hi (hi + 1) xs)[lo := v] ! k = (rotate_right_range lo hi xs)[lo := v] ! k"
    using assms k
    by (simp add: nth_list_update length_move_backward length_rotate_right_range
        nth_move_backward nth_rotate_right_range)
qed

lemma get_extent_range_eq:
  "get_extent_range t hash =
     (if \<not> 0 < m_buckets t then Inl (runtime_error, t)
      else if \<not> (extent_index t hash + 1) * c_buckets_per_extent t \<le> length (m_bucket_ptr t)
      then Inl (out_of_range, t) else Inr (extent_index t hash, t))"
  by (simp add: get_extent_range_def extent_index_def bucket_index_def Let_def)

lemma get_cell_range_eq:
  "get_cell_range t hash =
     (if \<not> 0 < m_buckets t then Inl (runtime_error, t)
      else if \<not> bucket_index t hash < length (m_bucket_ptr t)
      then Inl (out_of_range, t) else Inr (bucket_index t hash, t))"
  by (simp add: get_cell_range_def bucket_index_def Let_def)

lemma fetch_missing_extent_Inr:
  assumes "fetch_missing_extent t hash = Inr (u, t1)"
  shows "0 < m_buckets t"
    and "(extent_index t hash + 1) * c_buckets_per_extent t \<le> length (m_bucket_ptr t)"
    and "extent_index t hash < m_extents t"
    and "m_buckets t1 = m_buckets t"
    and "m_extents t1 = m_extents t"
    and "c_buckets_per_extent t1 = c_buckets_per_extent t"
    and "c_cells_per_bucket t1 = c_cells_per_bucket t"
    and "c_toxic_mask t1 = c_toxic_mask t"
    and "m_toxic_hashes t1 = m_toxic_hashes t"
    and "m_fd t1 = m_fd t"
    and "length (m_bucket_ptr t1) = length (m_bucket_ptr t)"
    and "m_buckets_dirty t1 = m_buckets_dirty t"
    and "m_buckets_missing t1 = m_buckets_missing t - {extent_index t hash}"
  using assms
  by (auto simp: fetch_missing_extent_def get_extent_range_eq BEESCOUNT_def write_extent_def
      split: if_splits option.splits)

lemma set_extent_dirty_Inr:
  assumes "0 < m_buckets t"
    and "(extent_index t hash + 1) * c_buckets_per_extent t \<le> length (m_bucket_ptr t)"
    and "extent_index t hash < m_extents t"
  shows "set_extent_dirty t hash =
           Inr ((), t\<lparr>m_buckets_dirty := insert (extent_index t hash) (m_buckets_dirty t)\<rparr>)"
  using assms by (simp add: set_extent_dirty_def get_extent_range_eq)

lemma first_index_std_find: "first_index xs v = std_find xs v"
  by (simp add: first_index_def std_find_takeWhile)

lemma set_extent_dirty_after_fetch:
  assumes "fetch_missing_extent t hash = Inr (u, t1)"
    and "m_buckets t2 = m_buckets t1" "m_extents t2 = m_extents t1"
    and "c_buckets_per_extent t2 = c_buckets_per_extent t1"
    and "length (m_bucket_ptr t2) = length (m_bucket_ptr t1)"
  shows "set_extent_dirty t2 hash =
           Inr ((), t2\<lparr>m_buckets_dirty := insert (extent_index t hash) (m_buckets_dirty t2)\<rparr>)"
proof -
  note f = fetch_missing_extent_Inr[OF assms(1)]
  have e: "extent_index t2 hash = extent_index t hash"
    using assms f by (simp add: extent_index_def bucket_index_def)
  show ?thesis
    using set_extent_dirty_Inr[of t2 hash] assms f e by simp
qed

lemma std_find_eq_length: "std_find xs v = length xs \<longleftrightarrow> v \<notin> set xs"
  using std_find_less_iff[of xs v] std_find_le[of xs v] by linarith

lemma copy_loop_stop: "copy_loop lo sp lo xs = xs"
  by (subst copy_loop.simps) simp

lemma push_front_cells:
  assumes "xs \<noteq> []"
    and "ip = (if \<not> std_find xs mv < length xs then std_find xs (Cell 0 0) else std_find xs mv)"
  shows "(if 0 < ip
          then (if ip = length xs then copy_loop 0 (ip - 2) (ip - 1) xs
                else copy_loop 0 (ip - 1) ip xs)
          else xs) = copy_loop 0 (push_front_source xs mv - 1) (push_front_source xs mv) xs"
proof -
  consider (match) "mv \<in> set xs"
    | (empty) "mv \<notin> set xs" "Cell 0 0 \<in> set xs"
    | (full) "mv \<notin> set xs" "Cell 0 0 \<notin> set xs" by blast
  then show ?thesis
  proof cases
    case match
    then have "std_find xs mv < length xs" by (simp add: std_find_less_iff)
    then show ?thesis using match assms(2)
      by (simp add: push_front_source_def first_index_std_find copy_loop_stop)
  next
    case empty
    then have "std_find xs (Cell 0 0) < length xs" "\<not> std_find xs mv < length xs"
      by (simp_all add: std_find_less_iff)
    then show ?thesis using empty assms(2)
      by (simp add: push_front_source_def first_index_std_find copy_loop_stop)
  next
    case full
    then have "std_find xs (Cell 0 0) = length xs" "std_find xs mv = length xs"
      by (simp_all add: std_find_notin)
    moreover have "length xs - 2 = length xs - 1 - 1" by simp
    ultimately show ?thesis using full assms
      by (simp add: push_front_source_def del: One_nat_def)
  qed
qed

lemma push_front_source_less: "xs \<noteq> [] \<Longrightarrow> push_front_source xs mv < length xs"
  by (simp add: push_front_source_def first_index_std_find std_find_less_iff)

section \<open>Promotion to the front\<close>

text \<open>
  C2.  Once the extent is loaded and the bucket \<open>xs\<close> of the hash is at hand,
  \<open>push_front\<close> returns whether \<open>(hash, addr)\<close> was in the bucket, and leaves the bucket
  rotated right by one on the range from 0 to the source, with \<open>(hash, addr)\<close> at
  index 0.  The source is the first matching cell, else the first empty cell, else the
  last cell; an eviction is counted exactly when the bucket holds neither a match nor an
  empty cell.
\<close>

theorem push_front_rotates_prefix:
  assumes "fetch_missing_extent t hash = Inr ((), t1)"
    and "get_cell_range t1 hash = Inr (b, t1)"
    and "xs = m_bucket_ptr t1 ! b"
    and "xs \<noteq> []"
  shows "\<exists>t'. push_front_hash_addr t hash addr = Inr (Cell hash addr \<in> set xs, t')
           \<and> m_bucket_ptr t' = (m_bucket_ptr t1)
                [b := (rotate_right_range 0 (push_front_source xs (Cell hash addr)) xs)
                        [0 := Cell hash addr]]
           \<and> m_bucket_ptr t' ! b ! 0 = Cell hash addr
           \<and> stats t' hash_evict =
               (if Cell hash addr \<notin> set xs \<and> Cell 0 0 \<notin> set xs
                then Suc (stats t1 hash_evict) else stats t1 hash_evict)"
proof -
  define mv where "mv = Cell hash addr"
  define s where "s = push_front_source xs mv"
  define xs1 where "xs1 = copy_loop 0 (s - 1) s xs"
  define ip where "ip = (if \<not> std_find xs mv < length xs then std_find xs (Cell 0 0) else std_find xs mv)"
  define t2 where "t2 = (if 0 < ip \<and> ip = length xs then BEESCOUNT hash_evict t1 else t1)"
  have s: "s < length xs" using assms(4) by (simp add: s_def push_front_source_less)
  have b: "b < length (m_bucket_ptr t1)"
    using assms(2) by (auto simp: get_cell_range_eq split: if_splits)
  have rot: "xs1[0 := mv] = (rotate_right_range 0 s xs)[0 := mv]"
    unfolding xs1_def using s by (intro copy_loop_rotate) simp_all
  have lr: "0 < length (rotate_right_range 0 s xs)"
    using s assms(4) length_rotate_right_range[of 0 s xs] by simp
  have len1: "length xs1 = length xs" by (simp add: xs1_def length_copy_loop)
  have ip_full: "(0 < ip \<and> ip = length xs) \<longleftrightarrow> (mv \<notin> set xs \<and> Cell 0 0 \<notin> set xs)"
  proof -
    have "0 < length xs" using assms(4) by simp
    then show ?thesis
      by (auto simp: ip_def std_find_less_iff std_find_eq_length std_find_notin)
  qed
  have ev: "stats t2 hash_evict =
      (if mv \<notin> set xs \<and> Cell 0 0 \<notin> set xs then Suc (stats t1 hash_evict) else stats t1 hash_evict)"
    unfolding t2_def ip_full by (simp add: BEESCOUNT_def count_def)
  have t2_same: "m_buckets t2 = m_buckets t1" "m_extents t2 = m_extents t1"
    "c_buckets_per_extent t2 = c_buckets_per_extent t1" "m_bucket_ptr t2 = m_bucket_ptr t1"
    by (simp_all add: t2_def BEESCOUNT_def)
  define xs1' where "xs1' = (if 0 < ip
          then (if ip = length xs then copy_loop 0 (ip - 2) (ip - 1) xs
                else copy_loop 0 (ip - 1) ip xs)
          else xs)"
  have "push_front_hash_addr t hash addr =
      (if xs1' ! 0 \<noteq> mv then
         (case set_extent_dirty (t2\<lparr>m_bucket_ptr := (m_bucket_ptr t2)[b := xs1'[0 := mv]]\<rparr>) hash of
            Inl e \<Rightarrow> Inl e
          | Inr (_, t3) \<Rightarrow> Inr (std_find xs mv < length xs, BEESCOUNT hash_front t3))
       else Inr (std_find xs mv < length xs, t2\<lparr>m_bucket_ptr := (m_bucket_ptr t2)[b := xs1']\<rparr>))"
    unfolding push_front_hash_addr_def xs1'_def t2_def ip_def mv_def
    by (simp only: assms(1) assms(2) sum.case prod.case Let_def assms(3)[symmetric])
  moreover have "xs1' = xs1"
    unfolding xs1'_def xs1_def s_def by (rule push_front_cells[OF assms(4) ip_def])
  ultimately have unfold: "push_front_hash_addr t hash addr =
      (if xs1 ! 0 \<noteq> mv then
         (case set_extent_dirty (t2\<lparr>m_bucket_ptr := (m_bucket_ptr t2)[b := xs1[0 := mv]]\<rparr>) hash of
            Inl e \<Rightarrow> Inl e
          | Inr (_, t3) \<Rightarrow> Inr (mv \<in> set xs, BEESCOUNT hash_front t3))
       else Inr (mv \<in> set xs, t2\<lparr>m_bucket_ptr := (m_bucket_ptr t2)[b := xs1]\<rparr>))"
    by (simp only: std_find_less_iff)
  have goal: "\<exists>t'. push_front_hash_addr t hash addr = Inr (mv \<in> set xs, t')
           \<and> m_bucket_ptr t' = (m_bucket_ptr t1)[b := (rotate_right_range 0 s xs)[0 := mv]]
           \<and> m_bucket_ptr t' ! b ! 0 = mv
           \<and> stats t' hash_evict =
               (if mv \<notin> set xs \<and> Cell 0 0 \<notin> set xs
                then Suc (stats t1 hash_evict) else stats t1 hash_evict)"
  proof (cases "xs1 ! 0 \<noteq> mv")
    case True
    let ?t = "t2\<lparr>m_bucket_ptr := (m_bucket_ptr t2)[b := xs1[0 := mv]]\<rparr>"
    let ?t' = "BEESCOUNT hash_front
                 (?t\<lparr>m_buckets_dirty := insert (extent_index t hash) (m_buckets_dirty ?t)\<rparr>)"
    have d: "set_extent_dirty ?t hash =
        Inr ((), ?t\<lparr>m_buckets_dirty := insert (extent_index t hash) (m_buckets_dirty ?t)\<rparr>)"
      by (rule set_extent_dirty_after_fetch[OF assms(1)]) (simp_all add: t2_same)
    have r: "push_front_hash_addr t hash addr = Inr (mv \<in> set xs, ?t')"
      using True by (simp only: unfold d if_True sum.case prod.case not_False_eq_True simp_thms)
    have p: "m_bucket_ptr ?t' = (m_bucket_ptr t1)[b := (rotate_right_range 0 s xs)[0 := mv]]"
      by (simp add: BEESCOUNT_def t2_same rot)
    have z: "m_bucket_ptr ?t' ! b ! 0 = mv"
      unfolding p using b lr by simp
    have e: "stats ?t' hash_evict = stats t2 hash_evict"
      by (simp add: BEESCOUNT_def count_def)
    show ?thesis using r p z e ev by metis
  next
    case False
    let ?t' = "t2\<lparr>m_bucket_ptr := (m_bucket_ptr t2)[b := xs1]\<rparr>"
    from False have "xs1 = xs1[0 := mv]" by (metis list_update_id)
    then have x: "xs1 = (rotate_right_range 0 s xs)[0 := mv]" using rot by simp
    have r: "push_front_hash_addr t hash addr = Inr (mv \<in> set xs, ?t')"
      using False by (simp only: unfold if_False simp_thms)
    have p: "m_bucket_ptr ?t' = (m_bucket_ptr t1)[b := (rotate_right_range 0 s xs)[0 := mv]]"
      using x by (simp add: t2_same)
    have z: "m_bucket_ptr ?t' ! b ! 0 = mv"
      unfolding p using b lr by simp
    have e: "stats ?t' hash_evict = stats t2 hash_evict" by simp
    show ?thesis using r p z e ev by metis
  qed
  then show ?thesis unfolding mv_def s_def .
qed

theorem push_front_rotates_prefix_witness:
  "\<exists>t'. push_front_hash_addr
           (scenario_table [Cell 0xA 0x100A, Cell 0xB 0x100B, Cell 0xC 0x100C, Cell 0 0])
           0xC 0x100C = Inr (True, t')
      \<and> m_bucket_ptr t' = [[Cell 0xC 0x100C, Cell 0xA 0x100A, Cell 0xB 0x100B, Cell 0 0]]
      \<and> stats t' hash_evict = 0"
proof -
  let ?xs = "[Cell 0xA 0x100A, Cell 0xB 0x100B, Cell 0xC 0x100C, Cell 0 0]"
  let ?t = "scenario_table ?xs"
  have h1: "fetch_missing_extent ?t 0xC = Inr ((), ?t)"
    by (simp add: fetch_missing_extent_def get_extent_range_def scenario_table_def)
  have h2: "get_cell_range ?t 0xC = Inr (0, ?t)"
    by (simp add: get_cell_range_def scenario_table_def)
  have h3: "?xs = m_bucket_ptr ?t ! 0" by (simp add: scenario_table_def)
  have h4: "?xs \<noteq> []" by simp
  have r: "(rotate_right_range 0 (push_front_source ?xs (Cell 0xC 0x100C)) ?xs)[0 := Cell 0xC 0x100C]
             = [Cell 0xC 0x100C, Cell 0xA 0x100A, Cell 0xB 0x100B, Cell 0 0]"
    by (simp add: rotate_right_range_def push_front_source_def first_index_def)
  show ?thesis
    using push_front_rotates_prefix[OF h1 h2 h3 h4, of "0x100C"]
    unfolding r by (auto simp add: scenario_table_def)
qed

section \<open>Random insertion\<close>

lemma scan_up_first_empty: "scan_up xs p = first_empty_up xs p"
proof (induction xs p rule: scan_up.induct)
  case (1 xs ip)
  show ?case
  proof (cases "ip < length xs")
    case True
    then have "[ip ..< length xs] = ip # [ip + 1 ..< length xs]"
      by (simp add: upt_conv_Cons)
    then show ?thesis using True 1
      by (subst scan_up.simps) (simp add: first_empty_up_def)
  next
    case False
    then show ?thesis by (subst scan_up.simps) (simp add: first_empty_up_def)
  qed
qed

lemma scan_down_first_empty: "scan_down xs p = first_empty_down xs p"
  by (induction p) (simp_all add: first_empty_down_def)

lemma first_empty_up_Some:
  "first_empty_up xs p = Some i \<Longrightarrow> p \<le> i \<and> i < length xs \<and> xs ! i = Cell 0 0"
  by (auto simp: first_empty_up_def find_Some_iff)

lemma first_empty_down_Some:
  "first_empty_down xs p = Some i \<Longrightarrow> i < p \<and> xs ! i = Cell 0 0"
  unfolding first_empty_down_def find_Some_iff
  by (metis atLeastLessThan_iff atLeastLessThan_upt nth_mem set_rev)

lemma ret_dirty_after_fetch:
  assumes "fetch_missing_extent t hash = Inr (u, t1)"
    and "m_buckets t2 = m_buckets t1" "m_extents t2 = m_extents t1"
    and "c_buckets_per_extent t2 = c_buckets_per_extent t1"
    and "length (m_bucket_ptr t2) = length (m_bucket_ptr t1)"
  shows "ret_dirty t2 b ys hash found =
           Inr (found, (BEESCOUNT hash_insert (t2\<lparr>m_bucket_ptr := (m_bucket_ptr t2)[b := ys]\<rparr>))
                  \<lparr>m_buckets_dirty := insert (extent_index t hash) (m_buckets_dirty t2)\<rparr>)"
proof -
  let ?t = "BEESCOUNT hash_insert (t2\<lparr>m_bucket_ptr := (m_bucket_ptr t2)[b := ys]\<rparr>)"
  have "set_extent_dirty ?t hash =
          Inr ((), ?t\<lparr>m_buckets_dirty := insert (extent_index t hash) (m_buckets_dirty ?t)\<rparr>)"
    by (rule set_extent_dirty_after_fetch[OF assms(1)]) (simp_all add: assms BEESCOUNT_def)
  then show ?thesis by (simp add: ret_dirty_def BEESCOUNT_def)
qed

lemma scenario_fetch: "fetch_missing_extent (scenario_table xs) h = Inr ((), scenario_table xs)"
  by (simp add: fetch_missing_extent_def get_extent_range_def scenario_table_def)

lemma scenario_cell_range: "get_cell_range (scenario_table xs) h = Inr (0, scenario_table xs)"
  by (simp add: get_cell_range_def scenario_table_def)

lemma scenario_bucket: "xs = m_bucket_ptr (scenario_table xs) ! 0"
  by (simp add: scenario_table_def)

text \<open>
  C3.  When the bucket \<open>xs\<close> of the loaded extent holds no cell equal to
  \<open>(hash, addr)\<close> and the position drawn is \<open>pos\<close>, \<open>push_random\<close> writes the entry into
  the first empty cell at or after \<open>pos\<close>, else into the first empty cell found downward
  from \<open>pos - 1\<close>, else rotates the range from \<open>pos\<close> to the last cell right by one and
  writes the entry at \<open>pos\<close>.  In each case the extent is marked dirty and the call
  returns false.
\<close>

theorem push_random_inserts_new:
  assumes "fetch_missing_extent t hash = Inr ((), t1)"
    and "get_cell_range t1 hash = Inr (b, t1)"
    and "xs = m_bucket_ptr t1 ! b"
    and "Cell hash addr \<notin> set xs"
    and "pos < length xs"
  shows "\<exists>t'. push_random_hash_addr t pos hash addr = Inr (False, t')
           \<and> m_bucket_ptr t' = (m_bucket_ptr t1)[b := random_insert_cells pos (Cell hash addr) xs]
           \<and> m_buckets_dirty t' = insert (extent_index t hash) (m_buckets_dirty t)"
proof -
  define mv where "mv = Cell hash addr"
  have nf: "\<not> std_find xs mv < length xs"
    using assms(4) by (simp add: std_find_less_iff mv_def)
  have dirty: "m_buckets_dirty t1 = m_buckets_dirty t"
    using fetch_missing_extent_Inr[OF assms(1)] by simp
  have mb: "(move_backward pos (length xs - 1) (length xs) xs)[pos := mv]
            = (rotate_right_range pos (length xs - 1) xs)[pos := mv]"
  proof -
    have "length xs - 1 + 1 = length xs" "pos \<le> length xs - 1" "length xs - 1 < length xs"
      using assms(5) by simp_all
    then show ?thesis using move_backward_rotate[of pos "length xs - 1" xs mv] by metis
  qed
  have rd: "\<And>t2 ys. m_buckets t2 = m_buckets t1 \<Longrightarrow> m_extents t2 = m_extents t1 \<Longrightarrow>
      c_buckets_per_extent t2 = c_buckets_per_extent t1 \<Longrightarrow> m_bucket_ptr t2 = m_bucket_ptr t1 \<Longrightarrow>
      m_buckets_dirty t2 = m_buckets_dirty t1 \<Longrightarrow>
      \<exists>t'. ret_dirty t2 b ys hash False = Inr (False, t')
           \<and> m_bucket_ptr t' = (m_bucket_ptr t1)[b := ys]
           \<and> m_buckets_dirty t' = insert (extent_index t hash) (m_buckets_dirty t)"
    using ret_dirty_after_fetch[OF assms(1)] dirty by (simp add: BEESCOUNT_def)
  have unfold: "push_random_hash_addr t pos hash addr =
      (case scan_up xs pos of
         Some ip \<Rightarrow> ret_dirty t1 b (xs[ip := mv]) hash False
       | None \<Rightarrow>
           (case (if 0 < pos then scan_down xs pos else None) of
              Some ip \<Rightarrow> ret_dirty t1 b (xs[ip := mv]) hash False
            | None \<Rightarrow>
                ret_dirty (BEESCOUNT hash_evict t1) b
                  ((move_backward pos (length xs - 1) (length xs) xs)[pos := mv]) hash False))"
    using nf unfolding push_random_hash_addr_def mv_def
    by (simp only: assms(1) assms(2) sum.case prod.case Let_def assms(3)[symmetric] if_False)
  have sd: "(if 0 < pos then scan_down xs pos else None) = first_empty_down xs pos"
    by (cases pos) (simp_all add: scan_down_first_empty first_empty_down_def)
  have "\<exists>t'. push_random_hash_addr t pos hash addr = Inr (False, t')
           \<and> m_bucket_ptr t' = (m_bucket_ptr t1)[b := random_insert_cells pos mv xs]
           \<and> m_buckets_dirty t' = insert (extent_index t hash) (m_buckets_dirty t)"
    unfolding unfold sd scan_up_first_empty random_insert_cells_def mb
    by (auto split: option.splits intro!: rd simp: BEESCOUNT_def)
  then show ?thesis unfolding mv_def .
qed

theorem push_random_inserts_new_witness:
  "\<exists>t'. push_random_hash_addr (scenario_table abcd) 1 0xE 0x100E = Inr (False, t')
      \<and> m_bucket_ptr t' = [[Cell 0xA 0x100A, Cell 0xE 0x100E, Cell 0xB 0x100B, Cell 0xC 0x100C]]
      \<and> m_buckets_dirty t' = {0}"
proof -
  have h4: "Cell 0xE 0x100E \<notin> set abcd" by (simp add: abcd_def)
  have h5: "1 < length abcd" by (simp add: abcd_def)
  have r: "random_insert_cells 1 (Cell 0xE 0x100E) abcd
             = [Cell 0xA 0x100A, Cell 0xE 0x100E, Cell 0xB 0x100B, Cell 0xC 0x100C]"
    by (simp add: random_insert_cells_def first_empty_up_def first_empty_down_def
        rotate_right_range_def abcd_def upt_conv_Cons)
  have e: "extent_index (scenario_table abcd) 0xE = 0"
    by (simp add: extent_index_def bucket_index_def scenario_table_def)
  show ?thesis
    using push_random_inserts_new[OF scenario_fetch scenario_cell_range scenario_bucket h4 h5]
    unfolding r e by (auto simp add: scenario_table_def)
qed

text \<open>
  C4, as stated, fails on a bucket that holds \<open>(hash, addr)\<close> twice, once at or before
  \<open>pos\<close> and once after it: \<open>std::find\<close> stops at the first of the two, and the bucket is
  left as it is, not marked dirty.  Here the cell is at index 3, beyond \<open>pos = 2\<close>, and
  also at index 1.
\<close>

theorem push_random_later_duplicate_counterexample:
  "adcd ! 3 = Cell 0xD 0x100D \<and> (2::nat) < 3
   \<and> push_random_hash_addr (scenario_table adcd) 2 0xD 0x100D
       = Inr (True, BEESCOUNT hash_already (scenario_table adcd))
   \<and> m_bucket_ptr (BEESCOUNT hash_already (scenario_table adcd)) = [adcd]
   \<and> adcd \<noteq> (rotate_right_range 2 3 adcd)[2 := Cell 0xD 0x100D]
   \<and> m_buckets_dirty (BEESCOUNT hash_already (scenario_table adcd)) = {}"
proof -
  have "push_random_hash_addr (scenario_table adcd) 2 0xD 0x100D
       = Inr (True, BEESCOUNT hash_already (scenario_table adcd))"
    unfolding push_random_hash_addr_def
    by (simp only: scenario_fetch scenario_cell_range sum.case prod.case Let_def
          scenario_bucket[symmetric])
       (simp add: adcd_def)
  then show ?thesis
    by (simp add: BEESCOUNT_def scenario_table_def) (simp add: adcd_def rotate_right_range_def)
qed

text \<open>
  C4, amended.  When the first cell of the bucket equal to \<open>(hash, addr)\<close> is at an
  index \<open>i\<close> beyond \<open>pos\<close>, \<open>push_random\<close> rotates the range from \<open>pos\<close> to \<open>i\<close> right by
  one, leaves \<open>(hash, addr)\<close> at \<open>pos\<close>, marks the extent dirty and returns true; the
  cells outside the range are unchanged.
\<close>

theorem push_random_bumps_first_match:
  assumes "fetch_missing_extent t hash = Inr ((), t1)"
    and "get_cell_range t1 hash = Inr (b, t1)"
    and "xs = m_bucket_ptr t1 ! b"
    and "Cell hash addr \<in> set xs"
    and "i = first_index xs (Cell hash addr)"
    and "pos < i"
  shows "\<exists>t'. push_random_hash_addr t pos hash addr = Inr (True, t')
           \<and> m_bucket_ptr t' =
               (m_bucket_ptr t1)[b := (rotate_right_range pos i xs)[pos := Cell hash addr]]
           \<and> m_bucket_ptr t' ! b ! pos = Cell hash addr
           \<and> (\<forall>k < length xs. k < pos \<or> i < k \<longrightarrow> m_bucket_ptr t' ! b ! k = xs ! k)
           \<and> m_buckets_dirty t' = insert (extent_index t hash) (m_buckets_dirty t)"
proof -
  define mv where "mv = Cell hash addr"
  have i: "i = std_find xs mv" "i < length xs"
    using assms(4,5) by (simp_all add: first_index_std_find std_find_less_iff mv_def)
  have b: "b < length (m_bucket_ptr t1)"
    using assms(2) by (auto simp: get_cell_range_eq split: if_splits)
  have dirty: "m_buckets_dirty t1 = m_buckets_dirty t"
    using fetch_missing_extent_Inr[OF assms(1)] by simp
  let ?ys = "(rotate_right_range pos i xs)[pos := mv]"
  have rot: "(copy_loop pos (i - 1) i xs)[pos := mv] = ?ys"
    using assms(6) i by (intro copy_loop_rotate) simp_all
  have len: "length ?ys = length xs"
    using assms(6) i by (simp add: length_rotate_right_range)
  have unfold: "push_random_hash_addr t pos hash addr =
      ret_dirty (BEESCOUNT hash_bump t1) b ((copy_loop pos (i - 1) i xs)[pos := mv]) hash True"
    using i assms(6) unfolding push_random_hash_addr_def mv_def
    by (simp only: assms(1) assms(2) sum.case prod.case Let_def assms(3)[symmetric] if_True)
  let ?t' = "(BEESCOUNT hash_insert
               ((BEESCOUNT hash_bump t1)\<lparr>m_bucket_ptr := (m_bucket_ptr (BEESCOUNT hash_bump t1))[b := ?ys]\<rparr>))
             \<lparr>m_buckets_dirty := insert (extent_index t hash) (m_buckets_dirty (BEESCOUNT hash_bump t1))\<rparr>"
  have r: "push_random_hash_addr t pos hash addr = Inr (True, ?t')"
    unfolding unfold rot
    by (rule ret_dirty_after_fetch[OF assms(1)]) (simp_all add: BEESCOUNT_def)
  have p: "m_bucket_ptr ?t' = (m_bucket_ptr t1)[b := ?ys]" by (simp add: BEESCOUNT_def)
  have z: "m_bucket_ptr ?t' ! b ! pos = mv"
    unfolding p using b len assms(6) i by simp
  have o: "\<forall>k < length xs. k < pos \<or> i < k \<longrightarrow> m_bucket_ptr ?t' ! b ! k = xs ! k"
    unfolding p using b assms(6) i
    by (auto simp: nth_list_update nth_rotate_right_range length_rotate_right_range)
  have d: "m_buckets_dirty ?t' = insert (extent_index t hash) (m_buckets_dirty t)"
    by (simp add: BEESCOUNT_def dirty)
  have "\<exists>t'. push_random_hash_addr t pos hash addr = Inr (True, t')
           \<and> m_bucket_ptr t' = (m_bucket_ptr t1)[b := ?ys]
           \<and> m_bucket_ptr t' ! b ! pos = mv
           \<and> (\<forall>k < length xs. k < pos \<or> i < k \<longrightarrow> m_bucket_ptr t' ! b ! k = xs ! k)
           \<and> m_buckets_dirty t' = insert (extent_index t hash) (m_buckets_dirty t)"
    using r p z o d by blast
  then show ?thesis unfolding mv_def .
qed

theorem push_random_bumps_first_match_witness:
  "\<exists>t'. push_random_hash_addr (scenario_table abcd) 1 0xD 0x100D = Inr (True, t')
      \<and> m_bucket_ptr t' = [[Cell 0xA 0x100A, Cell 0xD 0x100D, Cell 0xB 0x100B, Cell 0xC 0x100C]]
      \<and> m_buckets_dirty t' = {0}"
proof -
  have h4: "Cell 0xD 0x100D \<in> set abcd" by (simp add: abcd_def)
  have h5: "3 = first_index abcd (Cell 0xD 0x100D)" by (simp add: abcd_def first_index_def)
  have h6: "(1::nat) < 3" by simp
  have r: "(rotate_right_range 1 3 abcd)[1 := Cell 0xD 0x100D]
             = [Cell 0xA 0x100A, Cell 0xD 0x100D, Cell 0xB 0x100B, Cell 0xC 0x100C]"
    by (simp add: rotate_right_range_def abcd_def)
  have e: "extent_index (scenario_table abcd) 0xD = 0"
    by (simp add: extent_index_def bucket_index_def scenario_table_def)
  show ?thesis
    using push_random_bumps_first_match[OF scenario_fetch scenario_cell_range scenario_bucket h4 h5 h6]
    unfolding r e by (auto simp add: scenario_table_def)
qed

text \<open>
  C5.  When the bucket holds \<open>(hash, addr)\<close> at an index \<open>i\<close> that is at most \<open>pos\<close>,
  \<open>push_random\<close> returns true and changes only the counter \<open>hash_already\<close>: every cell of
  the region and the dirty set are as they were.
\<close>

theorem push_random_keeps_early_match:
  assumes "fetch_missing_extent t hash = Inr ((), t1)"
    and "get_cell_range t1 hash = Inr (b, t1)"
    and "xs = m_bucket_ptr t1 ! b"
    and "i \<le> pos" and "i < length xs" and "xs ! i = Cell hash addr"
  shows "push_random_hash_addr t pos hash addr = Inr (True, BEESCOUNT hash_already t1)
           \<and> m_bucket_ptr (BEESCOUNT hash_already t1) = m_bucket_ptr t1
           \<and> m_buckets_dirty (BEESCOUNT hash_already t1) = m_buckets_dirty t"
proof -
  define mv where "mv = Cell hash addr"
  have "\<not> i < std_find xs mv" using std_find_first[of i xs mv] assms(6) mv_def by blast
  then have f: "std_find xs mv < length xs" "\<not> pos < std_find xs mv"
    using assms(4,5) by simp_all
  have "push_random_hash_addr t pos hash addr = Inr (True, BEESCOUNT hash_already t1)"
    using f unfolding push_random_hash_addr_def mv_def
    by (simp only: assms(1) assms(2) sum.case prod.case Let_def assms(3)[symmetric] if_True if_False)
  moreover have "m_buckets_dirty t1 = m_buckets_dirty t"
    using fetch_missing_extent_Inr[OF assms(1)] by simp
  ultimately show ?thesis by (simp add: BEESCOUNT_def)
qed

theorem push_random_keeps_early_match_witness:
  "push_random_hash_addr (scenario_table abcd) 2 0xB 0x100B
     = Inr (True, BEESCOUNT hash_already (scenario_table abcd))
   \<and> m_bucket_ptr (BEESCOUNT hash_already (scenario_table abcd)) = [abcd]
   \<and> m_buckets_dirty (BEESCOUNT hash_already (scenario_table abcd)) = {}"
proof -
  have h4: "(1::nat) \<le> 2" by simp
  have h5: "1 < length abcd" by (simp add: abcd_def)
  have h6: "abcd ! 1 = Cell 0xB 0x100B" by (simp add: abcd_def)
  show ?thesis
    using push_random_keeps_early_match[OF scenario_fetch scenario_cell_range scenario_bucket h4 h5 h6]
    by (simp add: scenario_table_def BEESCOUNT_def)
qed

section \<open>Lookup\<close>

lemma get_cell_range_Inr:
  "get_cell_range t hash = Inr (b, t') \<Longrightarrow>
     b = bucket_index t hash \<and> t' = t \<and> b < length (m_bucket_ptr t) \<and> 0 < m_buckets t"
  by (auto simp: get_cell_range_eq split: if_splits)

lemma fetch_missing_extent_loaded:
  assumes "0 < m_buckets t"
    and "(extent_index t hash + 1) * c_buckets_per_extent t \<le> length (m_bucket_ptr t)"
    and "extent_index t hash < m_extents t"
    and "extent_index t hash \<notin> m_buckets_missing t"
  shows "fetch_missing_extent t hash = Inr ((), t)"
  using assms by (simp add: fetch_missing_extent_def get_extent_range_eq)

lemma fetch_missing_extent_again:
  assumes "fetch_missing_extent t hash = Inr (u, t1)"
    and "m_buckets t2 = m_buckets t1" "m_extents t2 = m_extents t1"
    and "c_buckets_per_extent t2 = c_buckets_per_extent t1"
    and "length (m_bucket_ptr t2) = length (m_bucket_ptr t1)"
    and "m_buckets_missing t2 = m_buckets_missing t1"
  shows "fetch_missing_extent t2 hash = Inr ((), t2)"
proof -
  note f = fetch_missing_extent_Inr[OF assms(1)]
  have e: "extent_index t2 hash = extent_index t hash"
    using assms f by (simp add: extent_index_def bucket_index_def)
  show ?thesis
    by (rule fetch_missing_extent_loaded) (use assms f e in simp_all)
qed

lemma find_cell_loaded:
  assumes "hash \<notin> m_toxic_hashes t"
    and "fetch_missing_extent t hash = Inr ((), t1)"
    and "get_cell_range t1 hash = Inr (b, t1)"
  shows "find_cell t hash =
           Inr (filter (\<lambda>c. e_hash c = hash \<and> 0x1000 \<le> e_addr c) (m_bucket_ptr t1 ! b),
                BEESCOUNT hash_lookup t1)"
  using assms(1) unfolding find_cell_def is_toxic_hash_def
  by (simp only: assms(2) assms(3) sum.case prod.case if_False)

text \<open>
  C6.  For a fingerprint that is not toxic, once its extent is loaded, \<open>find\<close> returns
  the cells of the bucket whose fingerprint is \<open>hash\<close> and whose address is at least
  \<open>0x1000\<close>, in the order of the bucket, and no cell of the region is changed by the
  lookup itself; when the extent was loaded before the call, the region is as it was
  before the call.
\<close>

theorem find_cell_returns_matching_cells:
  assumes "hash \<notin> m_toxic_hashes t"
    and "fetch_missing_extent t hash = Inr ((), t1)"
    and "get_cell_range t1 hash = Inr (b, t1)"
    and "xs = m_bucket_ptr t1 ! b"
  shows "\<exists>t'. find_cell t hash = Inr (filter (\<lambda>c. e_hash c = hash \<and> 0x1000 \<le> e_addr c) xs, t')
           \<and> m_bucket_ptr t' = m_bucket_ptr t1
           \<and> (extent_index t hash \<notin> m_buckets_missing t \<longrightarrow> m_bucket_ptr t' = m_bucket_ptr t)"
proof -
  have "extent_index t hash \<notin> m_buckets_missing t \<Longrightarrow> t1 = t"
    using assms(2)
    by (auto simp: fetch_missing_extent_def get_extent_range_eq split: if_splits)
  then show ?thesis
    using find_cell_loaded[OF assms(1,2,3)] assms(4) by (auto simp: BEESCOUNT_def)
qed

theorem find_cell_returns_matching_cells_witness:
  "\<exists>t'. find_cell (scenario_table ab00) 0xB = Inr ([Cell 0xB 0x100B], t')
      \<and> m_bucket_ptr t' = [ab00]"
proof -
  have h1: "0xB \<notin> m_toxic_hashes (scenario_table ab00)" by (simp add: scenario_table_def)
  have r: "filter (\<lambda>c. e_hash c = 0xB \<and> 0x1000 \<le> e_addr c) ab00 = [Cell 0xB 0x100B]"
    by (simp add: ab00_def)
  show ?thesis
    using find_cell_returns_matching_cells[OF h1 scenario_fetch scenario_cell_range scenario_bucket]
    unfolding r by (auto simp: scenario_table_def)
qed

text \<open>
  C7.  For a toxic fingerprint \<open>find\<close> returns one cell, whose address is \<open>0x1000\<close>
  with the toxic bits set, whatever the table holds; the region, the set of missing
  extents, the dirty set and the file are untouched, only the counter \<open>hash_toxic\<close>
  moves.
\<close>

theorem find_cell_toxic_short_circuit:
  assumes "hash \<in> m_toxic_hashes t"
  shows "find_cell t hash =
           Inr ([Cell hash (set_toxic (c_toxic_mask t) 0x1000)], BEESCOUNT hash_toxic t)
         \<and> set_toxic (c_toxic_mask t) 0x1000 = 0x1000 OR c_toxic_mask t
         \<and> (set_toxic (c_toxic_mask t) 0x1000) AND c_toxic_mask t = c_toxic_mask t
         \<and> m_bucket_ptr (BEESCOUNT hash_toxic t) = m_bucket_ptr t
         \<and> m_buckets_missing (BEESCOUNT hash_toxic t) = m_buckets_missing t
         \<and> m_buckets_dirty (BEESCOUNT hash_toxic t) = m_buckets_dirty t
         \<and> m_fd (BEESCOUNT hash_toxic t) = m_fd t"
  using assms
  by (simp add: find_cell_def is_toxic_hash_def set_toxic_def BEESCOUNT_def Let_def
      bit.conj_disj_distrib2)

theorem find_cell_toxic_short_circuit_witness:
  "find_cell ((scenario_table ab00)\<lparr>m_buckets_missing := {0}, m_toxic_hashes := {0x77}\<rparr>) 0x77
     = Inr ([Cell 0x77 0x1200],
            BEESCOUNT hash_toxic
              ((scenario_table ab00)\<lparr>m_buckets_missing := {0}, m_toxic_hashes := {0x77}\<rparr>))
   \<and> m_buckets_missing (BEESCOUNT hash_toxic
              ((scenario_table ab00)\<lparr>m_buckets_missing := {0}, m_toxic_hashes := {0x77}\<rparr>)) = {0}"
proof -
  let ?t = "(scenario_table ab00)\<lparr>m_buckets_missing := {0}, m_toxic_hashes := {0x77}\<rparr>"
  have h: "0x77 \<in> m_toxic_hashes ?t" by simp
  have m: "set_toxic (c_toxic_mask ?t) 0x1000 = 0x1200"
    by (simp add: scenario_table_def set_toxic_def)
  show ?thesis
    using find_cell_toxic_short_circuit[OF h] unfolding m by (simp add: BEESCOUNT_def)
qed

section \<open>Erase\<close>

lemma erase_hash_addr_found:
  assumes "fetch_missing_extent t hash = Inr ((), t1)"
    and "get_cell_range t1 hash = Inr (b, t1)"
    and "xs = m_bucket_ptr t1 ! b"
    and "Cell hash addr \<in> set xs"
  shows "erase_hash_addr t hash addr =
           Inr ((), BEESCOUNT hash_erase
                  (t1\<lparr>m_bucket_ptr :=
                         (m_bucket_ptr t1)[b := xs[std_find xs (Cell hash addr) := Cell 0 0]],
                      m_buckets_dirty := insert (extent_index t hash) (m_buckets_dirty t1)\<rparr>))"
proof -
  let ?ys = "xs[std_find xs (Cell hash addr) := Cell 0 0]"
  let ?t = "t1\<lparr>m_bucket_ptr := (m_bucket_ptr t1)[b := ?ys]\<rparr>"
  have f: "std_find xs (Cell hash addr) < length xs"
    using assms(4) by (simp add: std_find_less_iff)
  have d: "set_extent_dirty ?t hash =
      Inr ((), ?t\<lparr>m_buckets_dirty := insert (extent_index t hash) (m_buckets_dirty ?t)\<rparr>)"
    by (rule set_extent_dirty_after_fetch[OF assms(1)]) simp_all
  have "erase_hash_addr t hash addr =
      (case set_extent_dirty ?t hash of Inl e \<Rightarrow> Inl e
       | Inr (_, t2) \<Rightarrow> Inr ((), BEESCOUNT hash_erase t2))"
    using f unfolding erase_hash_addr_def
    by (simp only: assms(1) assms(2) sum.case prod.case Let_def assms(3)[symmetric] if_True)
  then show ?thesis unfolding d by simp
qed

lemma erase_hash_addr_absent:
  assumes "fetch_missing_extent t hash = Inr ((), t1)"
    and "get_cell_range t1 hash = Inr (b, t1)"
    and "xs = m_bucket_ptr t1 ! b"
    and "Cell hash addr \<notin> set xs"
  shows "erase_hash_addr t hash addr = Inr ((), t1)"
proof -
  have f: "\<not> std_find xs (Cell hash addr) < length xs"
    using assms(4) by (simp add: std_find_less_iff)
  show ?thesis
    using f unfolding erase_hash_addr_def
    by (simp only: assms(1) assms(2) sum.case prod.case Let_def assms(3)[symmetric] if_False)
qed

lemma erase_first_of_one:
  "count_list xs mv \<le> 1 \<Longrightarrow> mv \<noteq> Cell 0 0 \<Longrightarrow> mv \<notin> set (xs[std_find xs mv := Cell 0 0])"
proof (induction xs)
  case Nil
  then show ?case by simp
next
  case (Cons x xs)
  show ?case
  proof (cases "x = mv")
    case True
    with Cons.prems have "count_list xs mv = 0" by simp
    then have "mv \<notin> set xs" by (simp add: count_list_0_iff)
    then show ?thesis using True Cons.prems by auto
  next
    case False
    then show ?thesis using Cons by auto
  qed
qed

lemma find_after_erase:
  assumes "fetch_missing_extent t hash = Inr ((), t1)"
    and "get_cell_range t1 hash = Inr (b, t1)"
    and "hash \<notin> m_toxic_hashes t"
    and "m_buckets t2 = m_buckets t1" "m_extents t2 = m_extents t1"
    and "c_buckets_per_extent t2 = c_buckets_per_extent t1"
    and "length (m_bucket_ptr t2) = length (m_bucket_ptr t1)"
    and "m_buckets_missing t2 = m_buckets_missing t1"
    and "m_toxic_hashes t2 = m_toxic_hashes t1"
  shows "find_cell t2 hash =
           Inr (filter (\<lambda>c. e_hash c = hash \<and> 0x1000 \<le> e_addr c) (m_bucket_ptr t2 ! b),
                BEESCOUNT hash_lookup t2)"
proof -
  note f = fetch_missing_extent_Inr[OF assms(1)]
  note g = get_cell_range_Inr[OF assms(2)]
  have 1: "fetch_missing_extent t2 hash = Inr ((), t2)"
    by (rule fetch_missing_extent_again[OF assms(1)]) (use assms in simp_all)
  have 2: "get_cell_range t2 hash = Inr (b, t2)"
    using g assms by (simp add: get_cell_range_eq bucket_index_def)
  have 3: "hash \<notin> m_toxic_hashes t2" using assms f by simp
  show ?thesis by (rule find_cell_loaded[OF 3 1 2])
qed

text \<open>
  C8, as stated, fails in its last sentence.  On a bucket that holds \<open>(hash, addr)\<close>
  twice, \<open>erase\<close> clears the first of the two and \<open>find\<close> still returns the second; and
  for a toxic fingerprint \<open>find\<close> returns the synthetic cell whatever was erased.
\<close>

theorem erase_then_find_counterexample:
  "returned (erase_then_find (scenario_table twice_b) 0xB 0x100B) = Some [Cell 0xB 0x100B]
   \<and> returned (erase_then_find ((scenario_table ab00)\<lparr>m_toxic_hashes := {0xB}\<rparr>) 0xB 0x1200)
       = Some [Cell 0xB 0x1200]"
proof -
  have m: "Cell 0xB 0x100B \<in> set twice_b" by (simp add: twice_b_def)
  have s: "std_find twice_b (Cell 0xB 0x100B) = 0" by (simp add: twice_b_def)
  have e1: "erase_hash_addr (scenario_table twice_b) 0xB 0x100B =
      Inr ((), BEESCOUNT hash_erase
         ((scenario_table twice_b)\<lparr>m_bucket_ptr := [twice_b[0 := Cell 0 0]], m_buckets_dirty := {0}\<rparr>))"
    using erase_hash_addr_found[OF scenario_fetch scenario_cell_range scenario_bucket m]
    unfolding s by (simp add: scenario_table_def extent_index_def bucket_index_def)
  have f1: "find_cell (BEESCOUNT hash_erase
         ((scenario_table twice_b)\<lparr>m_bucket_ptr := [twice_b[0 := Cell 0 0]], m_buckets_dirty := {0}\<rparr>)) 0xB
       = Inr ([Cell 0xB 0x100B], BEESCOUNT hash_lookup (BEESCOUNT hash_erase
         ((scenario_table twice_b)\<lparr>m_bucket_ptr := [twice_b[0 := Cell 0 0]], m_buckets_dirty := {0}\<rparr>)))"
    by (simp add: find_cell_def is_toxic_hash_def fetch_missing_extent_def get_extent_range_def
        get_cell_range_def scenario_table_def BEESCOUNT_def twice_b_def)
  have 1: "returned (erase_then_find (scenario_table twice_b) 0xB 0x100B) = Some [Cell 0xB 0x100B]"
    unfolding erase_then_find_def e1 by (simp add: f1 returned_def)
  let ?t = "(scenario_table ab00)\<lparr>m_toxic_hashes := {0xB}\<rparr>"
  have e2: "erase_hash_addr ?t 0xB 0x1200 = Inr ((), ?t)"
    by (simp add: erase_hash_addr_def fetch_missing_extent_def get_extent_range_def
        get_cell_range_def scenario_table_def ab00_def)
  have f2: "find_cell ?t 0xB = Inr ([Cell 0xB 0x1200], BEESCOUNT hash_toxic ?t)"
    by (simp add: find_cell_def is_toxic_hash_def set_toxic_def scenario_table_def)
  have 2: "returned (erase_then_find ?t 0xB 0x1200) = Some [Cell 0xB 0x1200]"
    unfolding erase_then_find_def e2 by (simp add: f2 returned_def)
  show ?thesis using 1 2 by simp
qed

text \<open>
  C8, amended.  \<open>erase(hash, addr)\<close> overwrites the first cell equal to
  \<open>(hash, addr)\<close>, if there is one, with the empty cell, leaves the other cells where
  they are and marks the extent dirty; if there is none, the region and the dirty set are
  unchanged.  When \<open>hash\<close> is not toxic and the bucket holds \<open>(hash, addr)\<close> at most once,
  a \<open>find(hash)\<close> after the erase returns, and returns no cell with address \<open>addr\<close>.
\<close>

theorem erase_clears_first_match:
  assumes "fetch_missing_extent t hash = Inr ((), t1)"
    and "get_cell_range t1 hash = Inr (b, t1)"
    and "xs = m_bucket_ptr t1 ! b"
  shows "(Cell hash addr \<in> set xs \<longrightarrow>
            (\<exists>t'. erase_hash_addr t hash addr = Inr ((), t')
               \<and> m_bucket_ptr t' =
                   (m_bucket_ptr t1)[b := xs[first_index xs (Cell hash addr) := Cell 0 0]]
               \<and> m_buckets_dirty t' = insert (extent_index t hash) (m_buckets_dirty t)))
       \<and> (Cell hash addr \<notin> set xs \<longrightarrow>
            (\<exists>t'. erase_hash_addr t hash addr = Inr ((), t')
               \<and> m_bucket_ptr t' = m_bucket_ptr t1
               \<and> m_buckets_dirty t' = m_buckets_dirty t))
       \<and> (hash \<notin> m_toxic_hashes t \<and> count_list xs (Cell hash addr) \<le> 1 \<longrightarrow>
            (\<exists>cs. returned (erase_then_find t hash addr) = Some cs
               \<and> (\<forall>c \<in> set cs. e_addr c \<noteq> addr)))"
proof (intro conjI impI)
  note f = fetch_missing_extent_Inr[OF assms(1)]
  note g = get_cell_range_Inr[OF assms(2)]
  define mv where "mv = Cell hash addr"
  {
    assume m: "Cell hash addr \<in> set xs"
    show "\<exists>t'. erase_hash_addr t hash addr = Inr ((), t')
               \<and> m_bucket_ptr t' =
                   (m_bucket_ptr t1)[b := xs[first_index xs (Cell hash addr) := Cell 0 0]]
               \<and> m_buckets_dirty t' = insert (extent_index t hash) (m_buckets_dirty t)"
      using erase_hash_addr_found[OF assms m] f
      by (simp add: BEESCOUNT_def first_index_std_find)
  }
  {
    assume m: "Cell hash addr \<notin> set xs"
    show "\<exists>t'. erase_hash_addr t hash addr = Inr ((), t')
               \<and> m_bucket_ptr t' = m_bucket_ptr t1
               \<and> m_buckets_dirty t' = m_buckets_dirty t"
      using erase_hash_addr_absent[OF assms m] f by simp
  }
  {
    assume a: "hash \<notin> m_toxic_hashes t \<and> count_list xs (Cell hash addr) \<le> 1"
    let ?P = "\<lambda>c. e_hash c = hash \<and> 0x1000 \<le> e_addr c"
    show "\<exists>cs. returned (erase_then_find t hash addr) = Some cs
               \<and> (\<forall>c \<in> set cs. e_addr c \<noteq> addr)"
    proof (cases "Cell hash addr \<in> set xs")
      case True
      let ?ys = "xs[std_find xs (Cell hash addr) := Cell 0 0]"
      let ?t' = "BEESCOUNT hash_erase
                  (t1\<lparr>m_bucket_ptr := (m_bucket_ptr t1)[b := ?ys],
                      m_buckets_dirty := insert (extent_index t hash) (m_buckets_dirty t1)\<rparr>)"
      have e: "erase_hash_addr t hash addr = Inr ((), ?t')"
        by (rule erase_hash_addr_found[OF assms True])
      have fc: "find_cell ?t' hash = Inr (filter ?P (m_bucket_ptr ?t' ! b), BEESCOUNT hash_lookup ?t')"
        by (rule find_after_erase[OF assms(1,2)]) (use a in \<open>simp_all add: BEESCOUNT_def\<close>)
      have bk: "m_bucket_ptr ?t' ! b = ?ys" using g by (simp add: BEESCOUNT_def)
      have r: "returned (erase_then_find t hash addr) = Some (filter ?P ?ys)"
        unfolding erase_then_find_def e using fc bk by (simp add: returned_def)
      have "\<forall>c \<in> set (filter ?P ?ys). e_addr c \<noteq> addr"
      proof
        fix c assume c: "c \<in> set (filter ?P ?ys)"
        show "e_addr c \<noteq> addr"
        proof
          assume ad: "e_addr c = addr"
          from c have h: "e_hash c = hash" "0x1000 \<le> e_addr c" "c \<in> set ?ys" by simp_all
          from h(1) ad have ceq: "c = Cell hash addr" by (cases c) simp
          from h(2) ad have "addr \<noteq> 0" by auto
          then have "Cell hash addr \<noteq> Cell 0 0" by simp
          with a have "Cell hash addr \<notin> set ?ys" by (intro erase_first_of_one) simp_all
          with h(3) ceq show False by simp
        qed
      qed
      with r show ?thesis by blast
    next
      case False
      have e: "erase_hash_addr t hash addr = Inr ((), t1)"
        by (rule erase_hash_addr_absent[OF assms False])
      have fc: "find_cell t1 hash = Inr (filter ?P (m_bucket_ptr t1 ! b), BEESCOUNT hash_lookup t1)"
        by (rule find_after_erase[OF assms(1,2)]) (use a in simp_all)
      have r: "returned (erase_then_find t hash addr) = Some (filter ?P xs)"
        unfolding erase_then_find_def e using fc assms(3) by (simp add: returned_def)
      have "\<forall>c \<in> set (filter ?P xs). e_addr c \<noteq> addr"
      proof
        fix c assume c: "c \<in> set (filter ?P xs)"
        show "e_addr c \<noteq> addr"
        proof
          assume ad: "e_addr c = addr"
          from c have h: "e_hash c = hash" "c \<in> set xs" by simp_all
          from h(1) ad have "c = Cell hash addr" by (cases c) simp
          with h(2) False show False by simp
        qed
      qed
      with r show ?thesis by blast
    qed
  }
qed

theorem erase_clears_first_match_witness:
  "(\<exists>t'. erase_hash_addr (scenario_table ab00) 0xB 0x100B = Inr ((), t')
       \<and> m_bucket_ptr t' = [[Cell 0xA 0x100A, Cell 0 0, Cell 0 0, Cell 0 0]]
       \<and> m_buckets_dirty t' = {0})
   \<and> (\<exists>t'. erase_hash_addr (scenario_table ab00) 0xC 0x100C = Inr ((), t')
       \<and> m_bucket_ptr t' = [ab00] \<and> m_buckets_dirty t' = {})
   \<and> (\<exists>cs. returned (erase_then_find (scenario_table ab00) 0xB 0x100B) = Some cs
       \<and> (\<forall>c \<in> set cs. e_addr c \<noteq> 0x100B))"
proof -
  note thB = erase_clears_first_match[OF scenario_fetch[of ab00 "0xB"]
      scenario_cell_range[of ab00 "0xB"] scenario_bucket[of ab00], of "0x100B"]
  note thC = erase_clears_first_match[OF scenario_fetch[of ab00 "0xC"]
      scenario_cell_range[of ab00 "0xC"] scenario_bucket[of ab00], of "0x100C"]
  have x: "extent_index (scenario_table ab00) h = 0" for h
    by (simp add: extent_index_def bucket_index_def scenario_table_def)
  have m1: "Cell 0xB 0x100B \<in> set ab00" "first_index ab00 (Cell 0xB 0x100B) = 1"
    by (simp_all add: ab00_def first_index_def)
  have m2: "Cell 0xC 0x100C \<notin> set ab00" by (simp add: ab00_def)
  have c: "0xB \<notin> m_toxic_hashes (scenario_table ab00) \<and> count_list ab00 (Cell 0xB 0x100B) \<le> 1"
    by (simp add: scenario_table_def ab00_def)
  have 1: "\<exists>t'. erase_hash_addr (scenario_table ab00) 0xB 0x100B = Inr ((), t')
       \<and> m_bucket_ptr t' = [[Cell 0xA 0x100A, Cell 0 0, Cell 0 0, Cell 0 0]]
       \<and> m_buckets_dirty t' = {0}"
    using thB[THEN conjunct1, rule_format, OF m1(1)]
    unfolding m1(2) x by (auto simp: scenario_table_def ab00_def)
  have 2: "\<exists>t'. erase_hash_addr (scenario_table ab00) 0xC 0x100C = Inr ((), t')
       \<and> m_bucket_ptr t' = [ab00] \<and> m_buckets_dirty t' = {}"
    using thC[THEN conjunct2, THEN conjunct1, rule_format, OF m2]
    by (auto simp: scenario_table_def)
  have 3: "\<exists>cs. returned (erase_then_find (scenario_table ab00) 0xB 0x100B) = Some cs
       \<and> (\<forall>c \<in> set cs. e_addr c \<noteq> 0x100B)"
    using thB[THEN conjunct2, THEN conjunct2, rule_format, OF c] .
  show ?thesis using 1 2 3 by blast
qed

text \<open>
  C10.  On a bucket with an empty cell, \<open>erase(0, 0)\<close> finds the first empty cell,
  writes the empty cell over it, so that every cell keeps its contents, and yet puts the
  extent into the dirty set and counts one \<open>hash_erase\<close>.
\<close>

theorem erase_zero_marks_dirty:
  assumes "fetch_missing_extent t 0 = Inr ((), t1)"
    and "get_cell_range t1 0 = Inr (b, t1)"
    and "xs = m_bucket_ptr t1 ! b"
    and "Cell 0 0 \<in> set xs"
  shows "\<exists>t'. erase_hash_addr t 0 0 = Inr ((), t')
           \<and> std_find xs (Cell 0 0) = first_index xs (Cell 0 0)
           \<and> xs ! first_index xs (Cell 0 0) = Cell 0 0
           \<and> m_bucket_ptr t' = m_bucket_ptr t1
           \<and> m_buckets_dirty t' = insert (extent_index t 0) (m_buckets_dirty t)
           \<and> stats t' hash_erase = Suc (stats t1 hash_erase)"
proof -
  note f = fetch_missing_extent_Inr[OF assms(1)]
  have n: "xs ! std_find xs (Cell 0 0) = Cell 0 0" using assms(4) by (rule std_find_nth)
  have "xs[std_find xs (Cell 0 0) := Cell 0 0] = xs" using n by (metis list_update_id)
  then have "(m_bucket_ptr t1)[b := xs[std_find xs (Cell 0 0) := Cell 0 0]] = m_bucket_ptr t1"
    using assms(3) by simp
  then show ?thesis
    using erase_hash_addr_found[OF assms] f n
    by (simp add: BEESCOUNT_def count_def first_index_std_find)
qed

theorem erase_zero_marks_dirty_witness:
  "\<exists>t'. erase_hash_addr (scenario_table ab00) 0 0 = Inr ((), t')
      \<and> first_index ab00 (Cell 0 0) = 2
      \<and> m_bucket_ptr t' = [ab00]
      \<and> m_buckets_dirty (scenario_table ab00) = {}
      \<and> m_buckets_dirty t' = {0}
      \<and> stats t' hash_erase = 1"
proof -
  have m: "Cell 0 0 \<in> set ab00" "first_index ab00 (Cell 0 0) = 2"
    by (simp_all add: ab00_def first_index_def)
  have x: "extent_index (scenario_table ab00) 0 = 0"
    by (simp add: extent_index_def bucket_index_def scenario_table_def)
  show ?thesis
    using erase_zero_marks_dirty[OF scenario_fetch scenario_cell_range scenario_bucket m(1)]
    unfolding x m(2) by (auto simp: scenario_table_def)
qed

section \<open>The prefetch pass\<close>

lemma verify_loop_read_only: "fst (verify_loop False xs seen st b) = xs"
  by (induction xs arbitrary: seen st b) (simp_all add: Let_def case_prod_beta)

lemma verify_loop_bugs_found:
  "snd (snd (verify_loop False xs seen st b)) \<longleftrightarrow>
     b \<or> (\<exists>c \<in> set xs. e_addr c \<noteq> 0 \<and> e_addr c < 0x1000)
       \<or> (\<exists>c \<in> set xs. e_addr c \<noteq> 0 \<and> c \<in> seen)
       \<or> \<not> distinct (filter (\<lambda>c. e_addr c \<noteq> 0) xs)"
proof (induction xs arbitrary: seen st b)
  case Nil
  then show ?case by simp
next
  case (Cons x xs)
  show ?case
    by (simp add: Let_def case_prod_beta Cons.IH) blast
qed

lemma verify_cell_range_read_only:
  "verify_cell_range xs False st = (ys, st', bugs) \<Longrightarrow> ys = xs \<and> bugs = bucket_has_violation xs"
  using verify_loop_read_only[of xs "{}" st False] verify_loop_bugs_found[of xs "{}" st False]
  by (simp add: verify_cell_range_def bucket_has_violation_def)

lemma analyze_buckets_read_only:
  "analyze_buckets t bs found = (t2, found2) \<Longrightarrow>
     t2 = t\<lparr>stats := stats t2\<rparr>
     \<and> found2 = (found \<or> (\<exists>b \<in> set bs. bucket_has_violation (m_bucket_ptr t ! b)))"
proof (induction bs arbitrary: t found)
  case Nil
  then show ?case by simp
next
  case (Cons b bs)
  obtain ys st' bugs where v:
    "verify_cell_range (m_bucket_ptr t ! b) VERIFY_CLEARS_BUGS (stats t) = (ys, st', bugs)"
    by (metis prod_cases3)
  then have r: "ys = m_bucket_ptr t ! b" "bugs = bucket_has_violation (m_bucket_ptr t ! b)"
    using verify_cell_range_read_only by (simp_all add: VERIFY_CLEARS_BUGS_def)
  let ?t = "t\<lparr>m_bucket_ptr := (m_bucket_ptr t)[b := ys], stats := st'\<rparr>"
  have same: "?t = t\<lparr>stats := st'\<rparr>" using r(1) by simp
  from Cons.prems v have "analyze_buckets ?t bs (found \<or> bugs) = (t2, found2)" by simp
  from Cons.IH[OF this] show ?case unfolding same using r(2) by auto
qed

lemma set_extent_dirty_cells:
  "m_bucket_ptr (case set_extent_dirty t h of Inl (e, t') \<Rightarrow> t' | Inr (u, t3) \<Rightarrow> t3)
     = m_bucket_ptr t"
  by (simp add: set_extent_dirty_def get_extent_range_def Let_def)

lemma fresh_fetch_0:
  "fetch_missing_extent (fresh_table readable_file) (of_nat (0 * c_buckets_per_extent (fresh_table readable_file)))
     = Inr ((), (BEESCOUNT hash_extent_in (fresh_table readable_file))
                  \<lparr>m_bucket_ptr := clean_extent @ replicate 2 [Cell 0 0, Cell 0 0],
                    m_buckets_missing := {1}\<rparr>)"
  by (simp add: fetch_missing_extent_def get_extent_range_def fresh_table_def readable_file_def
      write_extent_def clean_extent_def BEESCOUNT_def)

text \<open>
  C1, as stated, fails: \<open>prefetch_loop\<close> calls \<open>verify_cell_range\<close> with the default
  \<open>clear_bugs = VERIFY_CLEARS_BUGS\<close>, which is false, so nothing is cleared.  After a pass
  over a file whose extent 1 holds a cell with address \<open>0x10\<close>, the cell is still there,
  and extent 1 is not in the dirty set.
\<close>

theorem prefetch_keeps_violating_cell_counterexample:
  "m_bucket_ptr (prefetch_pass (fresh_table readable_file)) ! 2 ! 0 = Cell 0x5 0x10
   \<and> bucket_has_violation (m_bucket_ptr (prefetch_pass (fresh_table readable_file)) ! 2)
   \<and> 1 \<notin> m_buckets_dirty (prefetch_pass (fresh_table readable_file))"
  by code_simp

text \<open>
  C1, amended.  In the prefetch pass the verifier reads only: once the extent is loaded,
  the scan changes no cell of the region, whether the cell violates an invariant or not;
  and when no bucket of the extent holds a violation, the scan leaves the dirty set as it
  was.
\<close>

theorem prefetch_extent_read_only:
  assumes "fetch_missing_extent t (of_nat (ext * c_buckets_per_extent t)) = Inr ((), t1)"
  shows "m_bucket_ptr (prefetch_extent t ext) = m_bucket_ptr t1
       \<and> ((\<forall>b \<in> {ext * c_buckets_per_extent t1 ..< (ext + 1) * c_buckets_per_extent t1}.
              \<not> bucket_has_violation (m_bucket_ptr t1 ! b))
            \<longrightarrow> m_buckets_dirty (prefetch_extent t ext) = m_buckets_dirty t)"
proof -
  let ?bs = "[ext * c_buckets_per_extent t1 ..< (ext + 1) * c_buckets_per_extent t1]"
  obtain t2 found where a: "analyze_buckets t1 ?bs False = (t2, found)"
    by (metis surj_pair)
  from analyze_buckets_read_only[OF a]
  have t2: "t2 = t1\<lparr>stats := stats t2\<rparr>"
    and found: "found = (\<exists>b \<in> set ?bs. bucket_has_violation (m_bucket_ptr t1 ! b))"
    by simp_all
  have p2: "m_bucket_ptr t2 = m_bucket_ptr t1" by (subst t2) simp
  have d2: "m_buckets_dirty t2 = m_buckets_dirty t"
    using fetch_missing_extent_Inr[OF assms] by (subst t2) simp
  have u: "prefetch_extent t ext =
      (if found then (case set_extent_dirty t2 (of_nat ext) of Inl (e, t') \<Rightarrow> t' | Inr (u, t3) \<Rightarrow> t3)
       else t2)"
    unfolding prefetch_extent_def by (simp only: assms a sum.case prod.case)
  have 1: "m_bucket_ptr (prefetch_extent t ext) = m_bucket_ptr t1"
    unfolding u using set_extent_dirty_cells[of t2 "of_nat ext"] p2 by (cases found) simp_all
  have 2: "(\<forall>b \<in> {ext * c_buckets_per_extent t1 ..< (ext + 1) * c_buckets_per_extent t1}.
              \<not> bucket_has_violation (m_bucket_ptr t1 ! b))
            \<longrightarrow> m_buckets_dirty (prefetch_extent t ext) = m_buckets_dirty t"
    unfolding u using found d2 by auto
  show ?thesis using 1 2 by blast
qed

theorem prefetch_extent_read_only_witness:
  "m_bucket_ptr (prefetch_extent (fresh_table readable_file) 0)
     = clean_extent @ replicate 2 [Cell 0 0, Cell 0 0]
   \<and> m_buckets_dirty (prefetch_extent (fresh_table readable_file) 0) = {}"
proof -
  let ?t1 = "(BEESCOUNT hash_extent_in (fresh_table readable_file))
                  \<lparr>m_bucket_ptr := clean_extent @ replicate 2 [Cell 0 0, Cell 0 0],
                    m_buckets_missing := {1}\<rparr>"
  have i: "{0 * c_buckets_per_extent ?t1 ..< (0 + 1) * c_buckets_per_extent ?t1} = {0, 1}"
    by (auto simp: BEESCOUNT_def fresh_table_def)
  have h: "\<forall>b \<in> {0 * c_buckets_per_extent ?t1 ..< (0 + 1) * c_buckets_per_extent ?t1}.
             \<not> bucket_has_violation (m_bucket_ptr ?t1 ! b)"
    unfolding i by (simp add: bucket_has_violation_def clean_extent_def)
  note th = prefetch_extent_read_only[OF fresh_fetch_0]
  have 1: "m_bucket_ptr (prefetch_extent (fresh_table readable_file) 0)
     = clean_extent @ replicate 2 [Cell 0 0, Cell 0 0]"
    using th[THEN conjunct1] by simp
  have 2: "m_buckets_dirty (prefetch_extent (fresh_table readable_file) 0) = {}"
    using th[THEN conjunct2, THEN mp, OF h] by (simp add: fresh_table_def)
  show ?thesis using 1 2 by simp
qed

text \<open>Taken for a hash, an extent number below \<open>c_buckets_per_extent\<close> lies in
  extent 0.\<close>

lemma prefetch_dirty_target:
  assumes "ext < c_buckets_per_extent t" and "ext < m_buckets t" and "m_buckets t < 2 ^ 64"
  shows "extent_index t (of_nat ext) = 0"
proof -
  have "ext < 2 ^ 64" using assms(2,3) by simp
  then have "unat (of_nat ext :: 64 word) = ext" by (simp add: unat_of_nat)
  then show ?thesis using assms by (simp add: extent_index_def bucket_index_def)
qed

text \<open>
  C9.  The claim that no extent is both dirty and missing does not hold of the code.
  \<open>prefetch_loop\<close> loads extent \<open>ext\<close> with \<open>fetch_missing_extent(ext *
  c_buckets_per_extent)\<close> but marks with \<open>set_extent_dirty(ext)\<close>, which takes \<open>ext\<close> for a
  hash and so marks extent \<open>(ext mod m_buckets) div c_buckets_per_extent\<close>.  When the read
  of extent 0 fails and extent 1 holds a violation, one pass from the state the
  constructor leaves puts extent 0 into the dirty set while it is still missing.
\<close>

theorem prefetch_marks_missing_extent_dirty:
  "0 \<in> m_buckets_dirty (prefetch_pass (fresh_table failing_file))
   \<and> 0 \<in> m_buckets_missing (prefetch_pass (fresh_table failing_file))
   \<and> m_buckets_dirty (fresh_table failing_file) = {}"
  by code_simp

end
